theory Spec2Isabelle
  imports Complex_Main
begin

section \<open>Survey reports: the text-to-JSON converter and the aggregator of main.go\<close>

text \<open>
  The development embeds \<^verbatim>\<open>src/main.go\<close>: the score \<^verbatim>\<open>NPS\<close>, the aggregator
  \<^verbatim>\<open>NewReport\<close>, the converter \<^verbatim>\<open>TxtToJSON\<close> and the control flow of \<^verbatim>\<open>main\<close>.
  Go's \<^verbatim>\<open>int\<close> is taken at its 64-bit width, \<^verbatim>\<open>float64\<close> is IEEE 754 binary64 with
  round-to-nearest-even, strings are byte lists.
\<close>

subsection \<open>Go's \<^verbatim>\<open>int\<close>: 64 bits, two's complement, wrapping\<close>

definition wrap64 :: "int \<Rightarrow> int" where
  "wrap64 x = (x + 2 ^ 63) mod 2 ^ 64 - 2 ^ 63"

definition add64 :: "int \<Rightarrow> int \<Rightarrow> int" where
  "add64 a b = wrap64 (a + b)"

definition sub64 :: "int \<Rightarrow> int \<Rightarrow> int" where
  "sub64 a b = wrap64 (a - b)"

subsection \<open>Go's \<^verbatim>\<open>float64\<close>\<close>

text \<open>
  A finite binary64 value is carried as the rational it denotes. \<open>blen n\<close> is the number
  of binary digits of a positive \<open>n\<close>, and \<open>ilog2 x\<close> the exponent \<open>e\<close> of a positive \<open>x\<close>
  with \<open>2 powi e \<le> x < 2 powi (e + 1)\<close>; \<open>rne\<close> rounds to the nearest integer, a tie
  to the even one. \<open>f64_rnd\<close> rounds an
  exact result to the nearest value of the binary64 grid, ties to the even significand:
  53 significant bits in the binade of the argument, and the fixed spacing \<open>2 powi (-1074)\<close>
  below \<open>2 powi (-1022)\<close> (the subnormal range). The sign of a zero is not tracked: every
  divisor in the program is the conversion of an \<^verbatim>\<open>int\<close>, which is never the negative zero.
\<close>

function blen :: "int \<Rightarrow> int" where
  "blen n = (if n \<le> 0 then 0 else blen (n div 2) + 1)"
  by pat_completeness auto
termination
  by (relation "measure nat") auto

declare blen.simps [simp del]

definition ilog2 :: "rat \<Rightarrow> int" where
  "ilog2 x = (if 1 \<le> x then blen \<lfloor>x\<rfloor> - 1 else - blen (\<lceil>1 / x\<rceil> - 1))"

definition rne :: "rat \<Rightarrow> int" where
  "rne x = (let f = \<lfloor>x\<rfloor>; r = x - of_int f in
     if r < 1 / 2 then f else if 1 / 2 < r then f + 1 else if even f then f else f + 1)"

definition f64_exp :: "rat \<Rightarrow> int" where
  "f64_exp x = max (- 1022) (ilog2 \<bar>x\<bar>)"

definition f64_ulp :: "rat \<Rightarrow> rat" where
  "f64_ulp x = 2 powi (f64_exp x - 52)"

definition f64_rnd :: "rat \<Rightarrow> rat" where
  "f64_rnd x = (if x = 0 then 0 else of_int (rne (x / f64_ulp x)) * f64_ulp x)"

datatype float64 = Fin rat | PInf | NInf | NaN

text \<open>
  The result of an operation: the rounded value, or an infinity of its sign where the
  rounded magnitude is \<open>2 powi 1024\<close> or more, past the largest finite binary64.
\<close>

definition f64_round :: "rat \<Rightarrow> float64" where
  "f64_round x = (let r = f64_rnd x in
     if 1024 \<le> ilog2 \<bar>r\<bar> then (if 0 < r then PInf else NInf) else Fin r)"

definition float64_of_int :: "int \<Rightarrow> float64" where
  "float64_of_int i = f64_round (of_int i)"

fun f64_add :: "float64 \<Rightarrow> float64 \<Rightarrow> float64" where
  "f64_add (Fin x) (Fin y) = f64_round (x + y)"
| "f64_add NaN _ = NaN"
| "f64_add _ NaN = NaN"
| "f64_add PInf NInf = NaN"
| "f64_add NInf PInf = NaN"
| "f64_add PInf _ = PInf"
| "f64_add _ PInf = PInf"
| "f64_add NInf _ = NInf"
| "f64_add _ NInf = NInf"

fun f64_mul :: "float64 \<Rightarrow> float64 \<Rightarrow> float64" where
  "f64_mul (Fin x) (Fin y) = f64_round (x * y)"
| "f64_mul NaN _ = NaN"
| "f64_mul _ NaN = NaN"
| "f64_mul PInf (Fin y) = (if y = 0 then NaN else if 0 < y then PInf else NInf)"
| "f64_mul NInf (Fin y) = (if y = 0 then NaN else if 0 < y then NInf else PInf)"
| "f64_mul (Fin x) PInf = (if x = 0 then NaN else if 0 < x then PInf else NInf)"
| "f64_mul (Fin x) NInf = (if x = 0 then NaN else if 0 < x then NInf else PInf)"
| "f64_mul PInf PInf = PInf"
| "f64_mul NInf NInf = PInf"
| "f64_mul PInf NInf = NInf"
| "f64_mul NInf PInf = NInf"

text \<open>Division never traps: a zero divisor gives an infinity, and \<open>0 / 0\<close> gives NaN.\<close>

fun f64_div :: "float64 \<Rightarrow> float64 \<Rightarrow> float64" where
  "f64_div (Fin x) (Fin y) =
     (if y = 0 then (if x = 0 then NaN else if 0 < x then PInf else NInf)
      else f64_round (x / y))"
| "f64_div NaN _ = NaN"
| "f64_div _ NaN = NaN"
| "f64_div (Fin x) PInf = Fin 0"
| "f64_div (Fin x) NInf = Fin 0"
| "f64_div PInf (Fin y) = (if 0 \<le> y then PInf else NInf)"
| "f64_div NInf (Fin y) = (if 0 \<le> y then NInf else PInf)"
| "f64_div PInf PInf = NaN"
| "f64_div PInf NInf = NaN"
| "f64_div NInf PInf = NaN"
| "f64_div NInf NInf = NaN"

text \<open>
  \<^verbatim>\<open>int(n)\<close> for a \<^verbatim>\<open>float64\<close> \<^verbatim>\<open>n\<close> truncates towards zero. For a value no \<^verbatim>\<open>int\<close>
  holds (NaN, an infinity, a magnitude of \<open>2 ^ 63\<close> or more) the language leaves the result
  to the implementation; amd64 gives the least \<^verbatim>\<open>int\<close>.
\<close>

definition int_of_float64 :: "float64 \<Rightarrow> int" where
  "int_of_float64 v =
     (case v of
        Fin x \<Rightarrow>
          (let t = (if 0 \<le> x then \<lfloor>x\<rfloor> else \<lceil>x\<rceil>) in
           if - (2 ^ 63) \<le> t \<and> t < 2 ^ 63 then t else - (2 ^ 63))
      | _ \<Rightarrow> - (2 ^ 63))"

text \<open>Comparison of two values, false whenever one of them is NaN.\<close>

fun f64_le :: "float64 \<Rightarrow> float64 \<Rightarrow> bool" where
  "f64_le NaN _ = False"
| "f64_le _ NaN = False"
| "f64_le NInf _ = True"
| "f64_le _ PInf = True"
| "f64_le (Fin x) (Fin y) = (x \<le> y)"
| "f64_le PInf _ = False"
| "f64_le _ NInf = False"

subsection \<open>\<^verbatim>\<open>NPS\<close>\<close>

text \<open>
  \<^verbatim>\<open>return float64(promoters-detractors) / float64(promoters+passives+detractors) * 100\<close>
\<close>

definition NPS :: "int \<Rightarrow> int \<Rightarrow> int \<Rightarrow> float64" where
  "NPS promoters passives detractors =
     f64_mul
       (f64_div (float64_of_int (sub64 promoters detractors))
                (float64_of_int (add64 (add64 promoters passives) detractors)))
       (Fin 100)"

subsection \<open>The records \<^verbatim>\<open>Survey\<close> and \<^verbatim>\<open>Report\<close>\<close>

record Survey =
  Country :: string
  Course :: string
  CourseVer :: string
  Email :: string
  FoundVer :: string
  Instructor :: string
  Language :: string
  Modality :: string
  Name :: string
  Progress :: string
  Q1508 :: string
  Q207 :: int
  Q208 :: int
  Q209 :: int
  Q210 :: int
  Q508 :: string
  Q306 :: int
  Q307 :: int
  Q308 :: int
  Q320 :: int
  Q310 :: int
  Q318 :: string
  Q1901 :: string
  Q1002 :: int
  Q1003 :: int
  Q1004 :: int
  Q1005 :: int
  Q1907 :: string
  Q311 :: int
  Q410 :: int
  Q403 :: string
  Q109 :: string
  Q105 :: string
  Q111 :: string
  Q112 :: string
  Q113 :: string
  Q101 :: string
  Q1101 :: string
  Q1201 :: string
  Q1801 :: string
  Q1401 :: string
  Q1701 :: string
  StartDate :: string
  Subscript :: string
  SurveyDate :: string
  SurveyVer :: string

text \<open>The zero value of the struct, what \<^verbatim>\<open>var s Survey\<close> declares.\<close>

definition Survey_zero :: Survey where
  "Survey_zero =
     \<lparr>Country = [], Course = [], CourseVer = [], Email = [], FoundVer = [], Instructor = [],
      Language = [], Modality = [], Name = [], Progress = [], Q1508 = [],
      Q207 = 0, Q208 = 0, Q209 = 0, Q210 = 0, Q508 = [],
      Q306 = 0, Q307 = 0, Q308 = 0, Q320 = 0, Q310 = 0, Q318 = [],
      Q1901 = [], Q1002 = 0, Q1003 = 0, Q1004 = 0, Q1005 = 0, Q1907 = [],
      Q311 = 0, Q410 = 0, Q403 = [],
      Q109 = [], Q105 = [], Q111 = [], Q112 = [], Q113 = [], Q101 = [],
      Q1101 = [], Q1201 = [], Q1801 = [], Q1401 = [], Q1701 = [],
      StartDate = [], Subscript = [], SurveyDate = [], SurveyVer = []\<rparr>"

text \<open>
  The field \<^verbatim>\<open>NPS\<close> of the struct is \<open>Report_NPS\<close> here, the name \<open>NPS\<close> being the
  function's. A comment map that is \<^verbatim>\<open>nil\<close> is the empty map.
\<close>

record Report =
  Responses :: int
  CurriculumAvg :: float64
  InstructorAvg :: float64
  EnvironmentAvg :: float64
  OverallAvg :: float64
  Report_NPS :: float64
  CurriculumComments :: "string \<Rightarrow> string list option"
  InstructorComments :: "string \<Rightarrow> string list option"
  EnvironmentComments :: "string \<Rightarrow> string list option"
  OverallComments :: "string \<Rightarrow> string list option"

subsection \<open>\<^verbatim>\<open>NewReport\<close>\<close>

text \<open>
  The local variables of \<^verbatim>\<open>NewReport\<close>, all zero at the start, and one turn of its
  \<^verbatim>\<open>for _, s := range surveys\<close> loop. The \<^verbatim>\<open>switch\<close> has no default case: a negative
  \<^verbatim>\<open>Q410\<close> changes no counter.
\<close>

record tally =
  curriculumAvgsSum :: float64
  instructorAvgsSum :: float64
  environmentAvgsSum :: float64
  overallAvgsSum :: float64
  promoters :: int
  passives :: int
  detractors :: int

definition tally_zero :: tally where
  "tally_zero =
     \<lparr>curriculumAvgsSum = Fin 0, instructorAvgsSum = Fin 0, environmentAvgsSum = Fin 0,
      overallAvgsSum = Fin 0, promoters = 0, passives = 0, detractors = 0\<rparr>"

definition sums_step :: "Survey \<Rightarrow> tally \<Rightarrow> tally" where
  "sums_step s t =
     t\<lparr>curriculumAvgsSum :=
         f64_add (curriculumAvgsSum t)
           (f64_div (float64_of_int (add64 (add64 (add64 (Q207 s) (Q208 s)) (Q209 s)) (Q210 s)))
              (Fin 4)),
       instructorAvgsSum :=
         f64_add (instructorAvgsSum t)
           (f64_div (float64_of_int (add64 (add64 (add64 (Q306 s) (Q307 s)) (Q308 s)) (Q320 s)))
              (Fin 4)),
       environmentAvgsSum :=
         f64_add (environmentAvgsSum t)
           (f64_div
              (float64_of_int (add64 (add64 (add64 (Q1002 s) (Q1003 s)) (Q1004 s)) (Q1005 s)))
              (Fin 4)),
       overallAvgsSum := f64_add (overallAvgsSum t) (float64_of_int (Q311 s))\<rparr>"

definition nps_step :: "Survey \<Rightarrow> tally \<Rightarrow> tally" where
  "nps_step s t =
     (if 9 \<le> Q410 s then t\<lparr>promoters := add64 (promoters t) 1\<rparr>
      else if 7 \<le> Q410 s then t\<lparr>passives := add64 (passives t) 1\<rparr>
      else if 0 \<le> Q410 s then t\<lparr>detractors := add64 (detractors t) 1\<rparr>
      else t)"

definition loop_body :: "Survey \<Rightarrow> tally \<Rightarrow> tally" where
  "loop_body s t = nps_step s (sums_step s t)"

text \<open>
  The slice holds pointers. \<open>None\<close> is the \<^verbatim>\<open>nil\<close> pointer, whose dereference in the
  loop body panics; \<^verbatim>\<open>main\<close> only ever appends the address of a variable.
\<close>

datatype panic = NilDereference

fun NewReport_loop :: "tally \<Rightarrow> Survey option list \<Rightarrow> panic + tally" where
  "NewReport_loop t [] = Inr t"
| "NewReport_loop t (None # rest) = Inl NilDereference"
| "NewReport_loop t (Some s # rest) = NewReport_loop (loop_body s t) rest"

text \<open>
  The call \<^verbatim>\<open>stat.MeanStdDev([]float64{}, nil)\<close> between the loop and the result has its
  values discarded and touches nothing of the report.
\<close>

definition NewReport :: "Survey option list \<Rightarrow> panic + Report" where
  "NewReport surveys =
     (case NewReport_loop tally_zero surveys of
        Inl p \<Rightarrow> Inl p
      | Inr t \<Rightarrow>
          (let n = float64_of_int (int (length surveys)) in
           Inr \<lparr>Responses = int_of_float64 n,
                CurriculumAvg = f64_div (curriculumAvgsSum t) n,
                InstructorAvg = f64_div (instructorAvgsSum t) n,
                EnvironmentAvg = f64_div (environmentAvgsSum t) n,
                OverallAvg = f64_div (overallAvgsSum t) n,
                Report_NPS = NPS (promoters t) (passives t) (detractors t),
                CurriculumComments = Map.empty,
                InstructorComments = Map.empty,
                EnvironmentComments = Map.empty,
                OverallComments = Map.empty\<rparr>))"






subsection \<open>The string functions \<^verbatim>\<open>TxtToJSON\<close> calls\<close>

abbreviation nl :: char where "nl \<equiv> CHR 0x0A"
abbreviation dq :: char where "dq \<equiv> CHR 0x22"
abbreviation bs :: char where "bs \<equiv> CHR 0x5C"

definition HasPrefix :: "string \<Rightarrow> string \<Rightarrow> bool" where
  "HasPrefix s p = (take (length p) s = p)"

text \<open>\<^verbatim>\<open>strings.Contains(s, substr)\<close>.\<close>

fun Contains :: "string \<Rightarrow> string \<Rightarrow> bool" where
  "Contains [] substr = (substr = [])"
| "Contains (c # s) substr = (HasPrefix (c # s) substr \<or> Contains s substr)"

text \<open>\<^verbatim>\<open>strings.Split(s, sep)\<close> for a separator of one byte, as the program calls it.\<close>

fun Split :: "string \<Rightarrow> char \<Rightarrow> string list" where
  "Split [] sep = [[]]"
| "Split (c # s) sep =
     (if c = sep then [] # Split s sep
      else (case Split s sep of [] \<Rightarrow> [[c]] | p # ps \<Rightarrow> (c # p) # ps))"

text \<open>
  \<^verbatim>\<open>strings.Replace(s, old, new, n)\<close> for a non-empty \<^verbatim>\<open>old\<close>, as at both call sites:
  the first \<^verbatim>\<open>n\<close> occurrences from the left, every one when \<^verbatim>\<open>n\<close> is negative.
\<close>

function Replace :: "string \<Rightarrow> string \<Rightarrow> string \<Rightarrow> int \<Rightarrow> string" where
  "Replace [] old new n = []"
| "Replace (c # s) old new n =
     (if n \<noteq> 0 \<and> old \<noteq> [] \<and> HasPrefix (c # s) old
      then new @ Replace (drop (length old) (c # s)) old new (n - 1)
      else c # Replace s old new n)"
  by pat_completeness auto
termination
  by (relation "measure (\<lambda>(s, old, new, n). length s)") auto

text \<open>\<^verbatim>\<open>bytes.TrimRight(s, cutset)\<close>: the trailing bytes that are in the cutset go.\<close>

definition TrimRight :: "string \<Rightarrow> string \<Rightarrow> string" where
  "TrimRight s cutset = rev (dropWhile (\<lambda>c. c \<in> set cutset) (rev s))"

subsection \<open>\<^verbatim>\<open>TxtToJSON\<close>\<close>

text \<open>
  The input is the sequence of lines \<^verbatim>\<open>scanner.Scan\<close> hands to the loop, none of which
  holds a newline; the loop ends when \<^verbatim>\<open>Scan\<close> gives no further line, and the scanner's
  own error is never looked at. \<open>data_line\<close> is
  what the loop writes for a line that is not the separator: the line is split at
  \<^verbatim>\<open>=\<close>, the dashes leave the first part, \<^verbatim>\<open>fmt.Sprintf("  \"%s\": \"%s\",\n", ...)\<close>
  frames the first two parts, and a line that mentions \<^verbatim>\<open>survey_ver\<close> loses the comma.
  The guard on \<^verbatim>\<open>=\<close> comes first, so \<^verbatim>\<open>question[1]\<close> exists.
\<close>

datatype go_error = ErrorString string

fun Error :: "go_error \<Rightarrow> string" where
  "Error (ErrorString s) = s"

definition data_line :: "string \<Rightarrow> string" where
  "data_line line =
     (let question = Split line (CHR ''='');
          question0 = Replace (question ! 0) ''-'' [] (- 1);
          line1 = [CHR '' '', CHR '' '', dq] @ question0 @ [dq, CHR '':'', CHR '' '', dq]
                    @ question ! 1 @ [dq, CHR '','', nl]
      in if Contains line1 ''survey_ver'' then Replace line1 [CHR '','', nl] [nl] 1 else line1)"

fun TxtToJSON_scan :: "string \<Rightarrow> string list \<Rightarrow> string \<times> go_error option" where
  "TxtToJSON_scan buf [] = (TrimRight buf [CHR ''{'', nl], None)"
| "TxtToJSON_scan buf (line # rest) =
     (if \<not> Contains line ''='' then (buf, Some (ErrorString ''invalid input''))
      else if line = ''='' then TxtToJSON_scan (buf @ [CHR ''}'', nl, CHR ''{'', nl]) rest
      else TxtToJSON_scan (buf @ data_line line) rest)"

definition TxtToJSON :: "string list \<Rightarrow> string \<times> go_error option" where
  "TxtToJSON lines = TxtToJSON_scan [CHR ''{'', nl] lines"

text \<open>
  What the loop appends to the buffer for a line it accepts: the two writes of its body.
\<close>

definition line_bytes :: "string \<Rightarrow> string" where
  "line_bytes line = (if line = ''='' then [CHR ''}'', nl, CHR ''{'', nl] else data_line line)"

subsection \<open>The lines \<^verbatim>\<open>bufio.Scanner\<close> delivers\<close>

text \<open>
  \<^verbatim>\<open>bufio.NewScanner(r)\<close> splits the input at newlines (\<^verbatim>\<open>ScanLines\<close>): a line is the
  bytes before a newline, or the non-empty rest of the input after the last one, with one
  trailing carriage return dropped. The scanner's buffer grows to \<^verbatim>\<open>MaxScanTokenSize\<close>
  bytes and no further: at a line of that many bytes or more \<^verbatim>\<open>Scan\<close> returns false
  (the reader reporting the end of input by a read of its own, as a file does), and so
  for good. \<^verbatim>\<open>TxtToJSON\<close> never asks the scanner for its error, so for it the input ends
  there. \<open>TxtToJSON_reader\<close> is the function on the bytes of its reader.
\<close>

definition dropCR :: "string \<Rightarrow> string" where
  "dropCR data = (if data \<noteq> [] \<and> last data = CHR 0x0D then butlast data else data)"

definition MaxScanTokenSize :: nat where
  "MaxScanTokenSize = 64 * 1024"

definition scanner_lines :: "string \<Rightarrow> string list" where
  "scanner_lines input =
     (let pieces = Split input nl;
          raw = (if last pieces = [] then butlast pieces else pieces)
      in map dropCR (takeWhile (\<lambda>p. length p < MaxScanTokenSize) raw))"

definition TxtToJSON_reader :: "string \<Rightarrow> string \<times> go_error option" where
  "TxtToJSON_reader r = TxtToJSON (scanner_lines r)"

subsection \<open>\<^verbatim>\<open>main\<close>\<close>

text \<open>
  The decoder of \<^verbatim>\<open>encoding/json\<close> is a parameter: \<open>NewDecoder\<close> makes one from the
  bytes, \<open>More\<close> and \<open>Decode\<close> are its two methods, \<open>Decode\<close> filling the variable it is
  given and returning its error and the decoder's next state. The loop appends the
  variable whatever the error was, and ends when \<open>More\<close> says so; where it never ends
  the result is \<open>None\<close>. A failed conversion ends the program in \<^verbatim>\<open>log.Fatalf\<close> before
  any decoding; otherwise the report of the decoded surveys is printed.
\<close>

partial_function (option) decode_loop ::
  "('d \<Rightarrow> bool) \<Rightarrow> ('d \<Rightarrow> Survey \<Rightarrow> Survey \<times> go_error option \<times> 'd) \<Rightarrow> 'd \<Rightarrow> Survey list
     \<Rightarrow> Survey list option"
where
  "decode_loop More Decode dec surveys =
     (if More dec
      then (case Decode dec Survey_zero of
              (s, err, dec') \<Rightarrow> decode_loop More Decode dec' (surveys @ [s]))
      else Some surveys)"

datatype outcome = Fatal string | Panicked panic | Printed Report | Diverges

definition main ::
  "(string \<Rightarrow> 'd) \<Rightarrow> ('d \<Rightarrow> bool) \<Rightarrow> ('d \<Rightarrow> Survey \<Rightarrow> Survey \<times> go_error option \<times> 'd)
     \<Rightarrow> string list \<Rightarrow> outcome"
where
  "main NewDecoder More Decode lines =
     (case TxtToJSON lines of
        (surveyBytes, Some err) \<Rightarrow>
          Fatal (''[INFO] Error converting txt to JSON: '' @ Error err @ [nl])
      | (surveyBytes, None) \<Rightarrow>
          (case decode_loop More Decode (NewDecoder surveyBytes) [] of
             None \<Rightarrow> Diverges
           | Some surveys \<Rightarrow>
               (case NewReport (map Some surveys) of
                  Inl p \<Rightarrow> Panicked p
                | Inr r \<Rightarrow> Printed r)))"

subsection \<open>Reading a JSON string literal\<close>

text \<open>
  What a JSON decoder reads back from the bytes \<^verbatim>\<open>TxtToJSON\<close> writes decides whether those
  bytes encode a key and a value. This part is the grammar of a string literal in
  RFC 8259 (section 7), which \<^verbatim>\<open>encoding/json\<close> implements; it is not code of the
  repository. \<open>json_string\<close> reads a literal from just after its opening quote and gives
  the decoded bytes and the text after the closing quote: a backslash starts an escape,
  \<^verbatim>\<open>\uXXXX\<close> becomes the UTF-8 bytes of its code point (two of them for a surrogate pair,
  the replacement character for a lone surrogate), a raw control character is an error,
  every other byte stands for itself. \<open>json_member\<close> reads one member,
  \<^verbatim>\<open>"key": "value"\<close>, with optional white space around its three parts.
\<close>

definition hex_digit :: "char \<Rightarrow> int option" where
  "hex_digit c =
     (let n = (of_char c :: int) in
      if 48 \<le> n \<and> n \<le> 57 then Some (n - 48)
      else if 97 \<le> n \<and> n \<le> 102 then Some (n - 87)
      else if 65 \<le> n \<and> n \<le> 70 then Some (n - 55)
      else None)"

fun json_u4 :: "string \<Rightarrow> (int \<times> string) option" where
  "json_u4 (a # b # c # d # rest) =
     (case (hex_digit a, hex_digit b, hex_digit c, hex_digit d) of
        (Some w, Some x, Some y, Some z) \<Rightarrow> Some (((w * 16 + x) * 16 + y) * 16 + z, rest)
      | _ \<Rightarrow> None)"
| "json_u4 _ = None"

definition utf8 :: "int \<Rightarrow> string" where
  "utf8 n =
     (if n < 0x80 then [char_of n]
      else if n < 0x800 then [char_of (0xC0 + n div 64), char_of (0x80 + n mod 64)]
      else if n < 0x10000 then
        [char_of (0xE0 + n div 4096), char_of (0x80 + n div 64 mod 64), char_of (0x80 + n mod 64)]
      else
        [char_of (0xF0 + n div 262144), char_of (0x80 + n div 4096 mod 64),
         char_of (0x80 + n div 64 mod 64), char_of (0x80 + n mod 64)])"

definition unescape :: "char \<Rightarrow> char option" where
  "unescape e =
     (if e = dq \<or> e = bs \<or> e = CHR ''/'' then Some e
      else if e = CHR ''b'' then Some (CHR 0x08)
      else if e = CHR ''f'' then Some (CHR 0x0C)
      else if e = CHR ''n'' then Some nl
      else if e = CHR ''r'' then Some (CHR 0x0D)
      else if e = CHR ''t'' then Some (CHR 0x09)
      else None)"

definition json_escape :: "string \<Rightarrow> (string \<times> string) option" where
  "json_escape cs =
     (case cs of
        [] \<Rightarrow> None
      | e # cs1 \<Rightarrow>
          if e = CHR ''u'' then
            (case json_u4 cs1 of
               None \<Rightarrow> None
             | Some (n, cs2) \<Rightarrow>
                 if 0xD800 \<le> n \<and> n < 0xE000 then
                   (case cs2 of
                      b1 # u1 # cs3 \<Rightarrow>
                        (case (if b1 = bs \<and> u1 = CHR ''u'' then json_u4 cs3 else None) of
                           Some (m, cs4) \<Rightarrow>
                             if n < 0xDC00 \<and> 0xDC00 \<le> m \<and> m < 0xE000
                             then Some (utf8 (0x10000 + (n - 0xD800) * 0x400 + (m - 0xDC00)), cs4)
                             else Some (utf8 0xFFFD, cs2)
                         | None \<Rightarrow> Some (utf8 0xFFFD, cs2))
                    | _ \<Rightarrow> Some (utf8 0xFFFD, cs2))
                 else Some (utf8 n, cs2))
          else (case unescape e of None \<Rightarrow> None | Some x \<Rightarrow> Some ([x], cs1)))"

lemma json_u4_Some:
  assumes "json_u4 cs = Some (n, cs')"
  shows "\<exists>a b c d. cs = [a, b, c, d] @ cs' \<and> dq \<notin> {a, b, c, d} \<and> n < 65536"
proof -
  have hd: "\<And>c k. hex_digit c = Some k \<Longrightarrow> c \<noteq> dq \<and> 0 \<le> k \<and> k < 16"
    by (auto simp: hex_digit_def Let_def split: if_splits)
  obtain a b c d rest where cs: "cs = a # b # c # d # rest"
    using assms by (cases cs rule: json_u4.cases) simp_all
  obtain w x y z where h: "hex_digit a = Some w" "hex_digit b = Some x" "hex_digit c = Some y"
    "hex_digit d = Some z" "n = ((w * 16 + x) * 16 + y) * 16 + z" "cs' = rest"
    using assms unfolding cs by (auto split: option.splits)
  have "w < 16" "x < 16" "y < 16" "z < 16" "a \<noteq> dq" "b \<noteq> dq" "c \<noteq> dq" "d \<noteq> dq"
    "0 \<le> w" "0 \<le> x" "0 \<le> y" "0 \<le> z"
    using h hd by blast+
  then show ?thesis using cs h by auto
qed

lemma length_utf8: "length (utf8 n) \<le> 4" "n < 65536 \<Longrightarrow> length (utf8 n) \<le> 3"
  by (simp_all add: utf8_def)

lemma json_escape_Some:
  assumes "json_escape cs = Some (p, cs')"
  shows "\<exists>con. cs = con @ cs' \<and> con \<noteq> [] \<and> length p \<le> length con
               \<and> (dq \<in> set con \<longrightarrow> con = [dq] \<and> p = [dq])"
proof (cases cs)
  case Nil
  then show ?thesis using assms by (simp add: json_escape_def)
next
  case (Cons e cs1)
  show ?thesis
  proof (cases "e = CHR ''u''")
    case False
    then obtain x where x: "unescape e = Some x" "p = [x]" "cs' = cs1"
      using assms Cons by (auto simp: json_escape_def split: option.splits)
    have "e = dq \<Longrightarrow> x = dq" using x(1) by (simp add: unescape_def)
    then show ?thesis using Cons x by (intro exI[of _ "[e]"]) auto
  next
    case True
    then obtain n cs2 where u: "json_u4 cs1 = Some (n, cs2)"
      using assms Cons by (auto simp: json_escape_def split: option.splits)
    from json_u4_Some[OF u] obtain a b c d where
      1: "cs1 = [a, b, c, d] @ cs2" "dq \<notin> {a, b, c, d}" "n < 65536" by blast
    have first: "\<exists>con. cs = con @ cs2 \<and> con \<noteq> [] \<and> 3 \<le> length con \<and> dq \<notin> set con"
      using Cons True 1 by (intro exI[of _ "[e, a, b, c, d]"]) auto
    consider (one) "cs' = cs2" "length p \<le> 3"
      | (two) m cs3 where "cs2 = bs # CHR ''u'' # cs3" "json_u4 cs3 = Some (m, cs')"
    proof (cases "cs' = cs2 \<and> length p \<le> 3")
      case True
      then show ?thesis using that by blast
    next
      case False
      then show ?thesis
        using assms Cons True u 1(3) length_utf8(2)[of n] length_utf8(2)[of "0xFFFD"] that(2)
        by (auto simp: json_escape_def split: option.splits list.splits if_splits)
    qed
    then show ?thesis
    proof cases
      case one
      then show ?thesis using first by auto
    next
      case two
      from json_u4_Some[OF two(2)] obtain a' b' c' d' where
        2: "cs3 = [a', b', c', d'] @ cs'" "dq \<notin> {a', b', c', d'}" by blast
      have "cs = [e, a, b, c, d, bs, CHR ''u'', a', b', c', d'] @ cs'"
        using Cons 1 two 2 by simp
      moreover have "dq \<notin> set [e, a, b, c, d, bs, CHR ''u'', a', b', c', d']"
        using True 1 2 by auto
      moreover have "length p \<le> 4"
        using assms Cons True u two length_utf8(1)
        by (auto simp: json_escape_def split: option.splits list.splits if_splits)
      ultimately show ?thesis
        by (intro exI[of _ "[e, a, b, c, d, bs, CHR ''u'', a', b', c', d']"]) auto
    qed
  qed
qed

lemma json_escape_shorter: "json_escape cs = Some (p, cs') \<Longrightarrow> length cs' < length cs"
  using json_escape_Some[of cs p cs'] by (cases "cs = []") auto

function json_string :: "string \<Rightarrow> (string \<times> string) option" where
  "json_string [] = None"
| "json_string (c # cs) =
     (if c = dq then Some ([], cs)
      else if c = bs then
        (case json_escape cs of
           None \<Rightarrow> None
         | Some (p, cs') \<Rightarrow>
             (case json_string cs' of None \<Rightarrow> None | Some (s, r) \<Rightarrow> Some (p @ s, r)))
      else if (of_char c :: int) < 32 then None
      else (case json_string cs of None \<Rightarrow> None | Some (s, r) \<Rightarrow> Some (c # s, r)))"
  by pat_completeness auto
termination
  by (relation "measure length") (auto dest: json_escape_shorter)

definition json_space :: "char \<Rightarrow> bool" where
  "json_space c = (c = CHR '' '' \<or> c = CHR 0x09 \<or> c = CHR 0x0D \<or> c = nl)"

definition json_expect :: "char \<Rightarrow> string \<Rightarrow> string option" where
  "json_expect c s =
     (case dropWhile json_space s of [] \<Rightarrow> None | x # r \<Rightarrow> if x = c then Some r else None)"

definition json_member :: "string \<Rightarrow> ((string \<times> string) \<times> string) option" where
  "json_member s =
     (case json_expect dq s of
        None \<Rightarrow> None
      | Some s1 \<Rightarrow>
          (case json_string s1 of
             None \<Rightarrow> None
           | Some (k, s2) \<Rightarrow>
               (case json_expect (CHR '':'') s2 of
                  None \<Rightarrow> None
                | Some s3 \<Rightarrow>
                    (case json_expect dq s3 of
                       None \<Rightarrow> None
                     | Some s4 \<Rightarrow>
                         (case json_string s4 of
                            None \<Rightarrow> None
                          | Some (v, s5) \<Rightarrow> Some ((k, v), s5))))))"

section \<open>Properties of the rounding\<close>

lemma blen_nonneg: "0 \<le> blen n"
  by (induction n rule: blen.induct) (subst blen.simps, simp)

lemma blen_pos: "0 < n \<Longrightarrow> 0 < blen n"
  using blen_nonneg[of "n div 2"] by (subst blen.simps) simp

lemma blen_bounds:
  "0 < n \<Longrightarrow> 2 ^ nat (blen n - 1) \<le> n \<and> n < 2 ^ nat (blen n)"
proof (induction n rule: blen.induct)
  case (1 n)
  define m where "m = n div 2"
  have n: "blen n = blen m + 1" using "1.prems" by (subst blen.simps) (simp add: m_def)
  have mn: "2 * m \<le> n" "n \<le> 2 * m + 1" by (simp_all add: m_def)
  show ?case
  proof (cases "m \<le> 0")
    case True
    then have "m = 0" using mn "1.prems" by linarith
    then have "n = 1" using mn "1.prems" by linarith
    moreover have "blen m = 0" using \<open>m = 0\<close> by (subst blen.simps) simp
    ultimately show ?thesis using n by simp
  next
    case False
    then have mpos: "0 < m" by simp
    then have ih: "2 ^ nat (blen m - 1) \<le> m" "m < 2 ^ nat (blen m)"
      using "1.IH" "1.prems" by (simp_all add: m_def)
    have bp: "0 < blen m" using mpos by (rule blen_pos)
    then have "nat (blen m) = Suc (nat (blen m - 1))" by simp
    then have e: "(2::int) ^ nat (blen m) = 2 * 2 ^ nat (blen m - 1)" by simp
    have "nat (blen n) = Suc (nat (blen m))" using n bp by simp
    then have e2: "(2::int) ^ nat (blen n) = 2 * 2 ^ nat (blen m)" by simp
    have "(2::int) ^ nat (blen n - 1) = 2 ^ nat (blen m)" using n by simp
    then show ?thesis using ih mn e e2 by linarith
  qed
qed

lemma pow2_nat: "0 \<le> k \<Longrightarrow> (2::rat) powi k = 2 ^ nat k"
  by (simp add: power_int_def)

lemma pow2_neg: "0 \<le> k \<Longrightarrow> (2::rat) powi (- k) = 1 / 2 ^ nat k"
  by (simp add: power_int_minus pow2_nat field_simps)

lemma ilog2_ge1:
  assumes "1 \<le> x"
  shows "2 powi (ilog2 x) \<le> x" and "x < 2 powi (ilog2 x + 1)"
proof -
  define n where "n = \<lfloor>x\<rfloor>"
  have n: "0 < n" using assms by (simp add: n_def)
  have fl: "of_int n \<le> x" "x < of_int n + 1"
    unfolding n_def by linarith+
  from blen_bounds[OF n]
  have b: "2 ^ nat (blen n - 1) \<le> n" "n < 2 ^ nat (blen n)" by simp_all
  have bp: "0 < blen n" using n by (rule blen_pos)
  have e: "ilog2 x = blen n - 1" using assms by (simp add: ilog2_def n_def)
  have "(of_int (2 ^ nat (blen n - 1)) :: rat) \<le> of_int n"
    using b(1) by (rule iffD2[OF of_int_le_iff])
  then have "(2::rat) ^ nat (blen n - 1) \<le> of_int n" by simp
  moreover have "2 powi (ilog2 x) = (2::rat) ^ nat (blen n - 1)"
    using bp by (simp add: e pow2_nat)
  ultimately show "2 powi (ilog2 x) \<le> x" using fl by linarith
  have "n + 1 \<le> 2 ^ nat (blen n)" using b(2) by simp
  then have "(of_int (n + 1) :: rat) \<le> of_int (2 ^ nat (blen n))"
    by (rule iffD2[OF of_int_le_iff])
  then have "(of_int n :: rat) + 1 \<le> 2 ^ nat (blen n)" by simp
  moreover have "2 powi (ilog2 x + 1) = (2::rat) ^ nat (blen n)"
    using bp by (simp add: e pow2_nat)
  ultimately show "x < 2 powi (ilog2 x + 1)" using fl by linarith
qed

lemma ilog2_lt1:
  assumes "0 < x" "x < 1"
  shows "2 powi (ilog2 x) \<le> x" and "x < 2 powi (ilog2 x + 1)"
proof -
  define m where "m = \<lceil>1 / x\<rceil>"
  define j where "j = m - 1"
  define k where "k = blen j"
  have inv: "1 < 1 / x" using assms by simp
  have m: "of_int m - 1 < 1 / x" "1 / x \<le> of_int m"
    unfolding m_def by linarith+
  have "1 < (of_int m :: rat)" using inv m(2) by linarith
  then have j: "0 < j" by (simp add: j_def)
  from blen_bounds[OF j]
  have b: "2 ^ nat (k - 1) \<le> j" "j < 2 ^ nat k" by (simp_all add: k_def)
  have kpos: "0 < k" unfolding k_def using j by (rule blen_pos)
  have e: "ilog2 x = - k" using assms by (simp add: ilog2_def k_def j_def m_def)
  have "m \<le> 2 ^ nat k" using b(2) by (simp add: j_def)
  then have "(of_int m :: rat) \<le> of_int (2 ^ nat k)" by (rule iffD2[OF of_int_le_iff])
  then have "(of_int m :: rat) \<le> 2 ^ nat k" by simp
  then have "1 / x \<le> 2 ^ nat k" using m(2) by linarith
  then have "1 \<le> 2 ^ nat k * x" using assms(1) by (simp add: field_simps)
  then have "1 / 2 ^ nat k \<le> x" by (simp add: field_simps)
  moreover have "2 powi (ilog2 x) = 1 / (2::rat) ^ nat k"
    using kpos by (simp add: e pow2_neg)
  ultimately show "2 powi (ilog2 x) \<le> x" by simp
  have "(of_int (2 ^ nat (k - 1)) :: rat) \<le> of_int j"
    using b(1) by (rule iffD2[OF of_int_le_iff])
  then have "(2::rat) ^ nat (k - 1) \<le> of_int m - 1" by (simp add: j_def)
  then have "(2::rat) ^ nat (k - 1) < 1 / x" using m(1) by linarith
  then have "2 ^ nat (k - 1) * x < 1" using assms(1) by (simp add: field_simps)
  then have "x < 1 / 2 ^ nat (k - 1)" by (simp add: field_simps)
  moreover have "2 powi (ilog2 x + 1) = 1 / (2::rat) ^ nat (k - 1)"
  proof -
    have "ilog2 x + 1 = - (k - 1)" using e by simp
    then show ?thesis using kpos pow2_neg[of "k - 1"] by simp
  qed
  ultimately show "x < 2 powi (ilog2 x + 1)" by simp
qed

lemma ilog2_bounds:
  assumes "0 < x"
  shows "2 powi (ilog2 x) \<le> x" and "x < 2 powi (ilog2 x + 1)"
  using assms ilog2_ge1[of x] ilog2_lt1[of x] by (cases "1 \<le> x"; simp)+

lemma ilog2_mono:
  assumes "0 < x" "x \<le> y"
  shows "ilog2 x \<le> ilog2 y"
proof (rule ccontr)
  assume "\<not> ilog2 x \<le> ilog2 y"
  then have "ilog2 y + 1 \<le> ilog2 x" by simp
  then have "(2::rat) powi (ilog2 y + 1) \<le> 2 powi (ilog2 x)"
    by (intro power_int_increasing) simp_all
  moreover have "0 < y" using assms by simp
  ultimately show False
    using ilog2_bounds[of x] ilog2_bounds[of y] assms by linarith
qed

lemma rne_of_int: "rne (of_int n) = n"
  by (simp add: rne_def)

lemma rne_bounds: "\<lfloor>x\<rfloor> \<le> rne x" "rne x \<le> \<lfloor>x\<rfloor> + 1"
  by (simp_all add: rne_def Let_def)

lemma rne_mono:
  assumes "x \<le> y"
  shows "rne x \<le> rne y"
proof (cases "\<lfloor>x\<rfloor> = \<lfloor>y\<rfloor>")
  case True
  then show ?thesis using assms by (auto simp: rne_def Let_def)
next
  case False
  then have "\<lfloor>x\<rfloor> + 1 \<le> \<lfloor>y\<rfloor>" using floor_mono[OF assms] by linarith
  then show ?thesis using rne_bounds(2)[of x] rne_bounds(1)[of y] by linarith
qed

lemma rne_minus: "rne (- x) = - rne x"
proof (cases "x = of_int \<lfloor>x\<rfloor>")
  case True
  then obtain n where "x = of_int n" ..
  then have "- x = of_int (- n)" by simp
  then show ?thesis using rne_of_int \<open>x = of_int n\<close> by metis
next
  case False
  have fl0: "of_int \<lfloor>x\<rfloor> \<le> x" "x < of_int \<lfloor>x\<rfloor> + 1"
    by linarith+
  have fl: "of_int \<lfloor>x\<rfloor> < x" "x < of_int \<lfloor>x\<rfloor> + 1"
    using False fl0 by (metis order_le_less, blast)
  have c: "(of_int (- \<lfloor>x\<rfloor> - 1) :: rat) = - of_int \<lfloor>x\<rfloor> - 1" by simp
  have "\<lfloor>- x\<rfloor> = - \<lfloor>x\<rfloor> - 1"
    by (rule floor_unique) (use fl c in linarith)+
  then show ?thesis
    using fl by (auto simp: rne_def Let_def)
qed

lemma f64_ulp_pos: "0 < f64_ulp x"
  by (simp add: f64_ulp_def)

lemma f64_ulp_minus: "f64_ulp (- x) = f64_ulp x"
  by (simp add: f64_ulp_def f64_exp_def)

lemma f64_rnd_minus: "f64_rnd (- x) = - f64_rnd x"
  by (simp add: f64_rnd_def f64_ulp_minus rne_minus)

lemma f64_rnd_nonneg:
  assumes "0 \<le> x"
  shows "0 \<le> f64_rnd x"
proof -
  have "0 \<le> x / f64_ulp x" using assms f64_ulp_pos[of x] by simp
  then have "rne 0 \<le> rne (x / f64_ulp x)" by (rule rne_mono)
  then have "0 \<le> rne (x / f64_ulp x)" using rne_of_int[of 0] by simp
  then show ?thesis using f64_ulp_pos[of x] by (simp add: f64_rnd_def)
qed

lemma pow2_split: "(2::rat) powi (a + b) = 2 powi a * 2 powi b"
  by (rule power_int_add) simp

lemma pow2_exp_53: "(2::rat) powi (e + 1) = 2 ^ 53 * 2 powi (e - 52)"
proof -
  have "e + 1 = 53 + (e - 52)" by simp
  then have "(2::rat) powi (e + 1) = 2 powi (53 + (e - 52))" by (simp only:)
  also have "\<dots> = 2 powi 53 * 2 powi (e - 52)" by (rule pow2_split)
  finally show ?thesis by simp
qed

lemma pow2_exp_52: "(2::rat) powi e = 2 ^ 52 * 2 powi (e - 52)"
proof -
  have "e = 52 + (e - 52)" by simp
  then have "(2::rat) powi e = 2 powi (52 + (e - 52))" by (simp only:)
  also have "\<dots> = 2 powi 52 * 2 powi (e - 52)" by (rule pow2_split)
  finally show ?thesis by simp
qed

lemma f64_rnd_upper:
  assumes "0 < x"
  shows "f64_rnd x \<le> 2 powi (f64_exp x + 1)"
proof -
  define u where "u = f64_ulp x"
  have u: "0 < u" by (simp add: u_def f64_ulp_pos)
  have top: "2 powi (f64_exp x + 1) = 2 ^ 53 * u"
    unfolding u_def f64_ulp_def by (rule pow2_exp_53)
  have "x < 2 powi (ilog2 x + 1)" using ilog2_bounds(2)[OF assms] .
  also have "\<dots> \<le> 2 powi (f64_exp x + 1)"
    using assms by (intro power_int_increasing) (simp_all add: f64_exp_def)
  finally have "x < 2 ^ 53 * u" using top by simp
  then have "x / u < 2 ^ 53" using u by (simp add: field_simps)
  then have "x / u \<le> of_int (2 ^ 53)" by simp
  then have "rne (x / u) \<le> rne (of_int (2 ^ 53))" by (rule rne_mono)
  then have "rne (x / u) \<le> 2 ^ 53" by (simp only: rne_of_int)
  then have "(of_int (rne (x / u)) :: rat) \<le> 2 ^ 53" by simp
  then have "of_int (rne (x / u)) * u \<le> 2 ^ 53 * u"
    using u by (simp only: mult_le_cancel_right_pos)
  then show ?thesis using assms top by (simp add: f64_rnd_def u_def)
qed

lemma f64_rnd_lower:
  assumes "0 < x" "- 1022 \<le> ilog2 x"
  shows "2 powi (f64_exp x) \<le> f64_rnd x"
proof -
  define u where "u = f64_ulp x"
  have u: "0 < u" by (simp add: u_def f64_ulp_pos)
  have e: "f64_exp x = ilog2 x" using assms by (simp add: f64_exp_def)
  have bot: "2 powi (f64_exp x) = 2 ^ 52 * u"
    unfolding u_def f64_ulp_def by (rule pow2_exp_52)
  have "2 powi (f64_exp x) \<le> x" using ilog2_bounds(1)[OF assms(1)] e by simp
  then have "2 ^ 52 * u \<le> x" using bot by simp
  then have "2 ^ 52 \<le> x / u" using u by (simp add: field_simps)
  then have "of_int (2 ^ 52) \<le> x / u" by simp
  then have "rne (of_int (2 ^ 52)) \<le> rne (x / u)" by (rule rne_mono)
  then have "2 ^ 52 \<le> rne (x / u)" by (simp only: rne_of_int)
  then have "(2 ^ 52 :: rat) \<le> of_int (rne (x / u))" by simp
  then have "2 ^ 52 * u \<le> of_int (rne (x / u)) * u"
    using u by (simp only: mult_le_cancel_right_pos)
  then show ?thesis using assms bot by (simp add: f64_rnd_def u_def)
qed

lemma f64_rnd_mono_pos:
  assumes "0 < x" "x \<le> y"
  shows "f64_rnd x \<le> f64_rnd y"
proof -
  have ypos: "0 < y" using assms by simp
  have le: "f64_exp x \<le> f64_exp y"
    using ilog2_mono[of x y] assms by (simp add: f64_exp_def)
  show ?thesis
  proof (cases "f64_exp x = f64_exp y")
    case True
    then have u: "f64_ulp y = f64_ulp x" by (simp add: f64_ulp_def)
    have "x / f64_ulp x \<le> y / f64_ulp x"
      using assms f64_ulp_pos[of x] by (simp add: divide_right_mono)
    then have "rne (x / f64_ulp x) \<le> rne (y / f64_ulp x)" by (rule rne_mono)
    then have "(of_int (rne (x / f64_ulp x)) :: rat) \<le> of_int (rne (y / f64_ulp x))"
      by (simp only: of_int_le_iff)
    then have "of_int (rne (x / f64_ulp x)) * f64_ulp x
                 \<le> of_int (rne (y / f64_ulp x)) * f64_ulp x"
      using f64_ulp_pos[of x] by (simp only: mult_le_cancel_right_pos)
    then show ?thesis using assms ypos by (simp add: f64_rnd_def u)
  next
    case False
    then have lt: "f64_exp x + 1 \<le> f64_exp y" using le by simp
    have "- 1022 \<le> f64_exp x" by (simp add: f64_exp_def)
    then have "- 1022 \<le> ilog2 y" using lt ypos by (simp add: f64_exp_def)
    then have "2 powi (f64_exp y) \<le> f64_rnd y" using f64_rnd_lower[OF ypos] by simp
    moreover have "(2::rat) powi (f64_exp x + 1) \<le> 2 powi (f64_exp y)"
      using lt by (intro power_int_increasing) simp_all
    ultimately show ?thesis using f64_rnd_upper[OF assms(1)] by linarith
  qed
qed

lemma f64_rnd_mono:
  assumes "x \<le> y"
  shows "f64_rnd x \<le> f64_rnd y"
proof -
  consider "0 < x" | "x \<le> 0" "0 \<le> y" | "y < 0" using assms by linarith
  then show ?thesis
  proof cases
    case 1
    then show ?thesis using assms by (rule f64_rnd_mono_pos)
  next
    case 2
    have "0 \<le> f64_rnd (- x)" using 2 by (intro f64_rnd_nonneg) simp
    then have "f64_rnd x \<le> 0" by (simp add: f64_rnd_minus)
    moreover have "0 \<le> f64_rnd y" using 2 by (intro f64_rnd_nonneg)
    ultimately show ?thesis by simp
  next
    case 3
    then have "0 < - y" "- y \<le> - x" using assms by simp_all
    then have "f64_rnd (- y) \<le> f64_rnd (- x)" by (rule f64_rnd_mono_pos)
    then show ?thesis by (simp add: f64_rnd_minus)
  qed
qed

text \<open>A value with a significand of at most 53 bits above the least exponent is not moved.\<close>

lemma f64_rnd_exact_pos:
  assumes "0 < m" "m < 2 ^ 53" "- 1074 \<le> k"
  shows "f64_rnd (of_int m * 2 powi k) = of_int m * 2 powi k"
proof -
  define x :: rat where "x = of_int m * 2 powi k"
  define u where "u = f64_ulp x"
  have u: "0 < u" by (simp add: u_def f64_ulp_pos)
  have pos: "0 < x" using assms by (simp add: x_def)
  have "(of_int m :: rat) < 2 ^ 53" using assms(2) by simp
  then have "x < 2 ^ 53 * 2 powi k"
    unfolding x_def
    by (simp only: mult_less_cancel_right_pos zero_less_power_int zero_less_numeral)
  also have "\<dots> = 2 powi (53 + k)" using pow2_split[of 53 k] by simp
  finally have "2 powi (ilog2 x) < (2::rat) powi (53 + k)"
    using ilog2_bounds(1)[OF pos] by linarith
  then have "ilog2 x < 53 + k"
    by (metis linorder_not_le one_le_numeral power_int_increasing)
  then have "f64_exp x - 52 \<le> k" using assms(3) pos by (simp add: f64_exp_def)
  then have "0 \<le> k - (f64_exp x - 52)" by simp
  then obtain j :: nat where "k - (f64_exp x - 52) = int j"
    using nonneg_int_cases by blast
  then have j: "k = int j + (f64_exp x - 52)" by simp
  have "(2::rat) powi k = 2 powi (int j + (f64_exp x - 52))" using j by (simp only:)
  also have "\<dots> = 2 powi int j * 2 powi (f64_exp x - 52)" by (rule pow2_split)
  finally have pk: "(2::rat) powi k = 2 ^ j * u" by (simp add: u_def f64_ulp_def)
  have xe: "x = of_int (m * 2 ^ j) * u" by (simp add: x_def pk)
  then have "x / u = of_int (m * 2 ^ j)" using u by simp
  then have "rne (x / u) = m * 2 ^ j" by (simp only: rne_of_int)
  then have "f64_rnd x = of_int (m * 2 ^ j) * u" using pos by (simp add: f64_rnd_def u_def)
  then have "f64_rnd x = x" using xe by (simp only:)
  then show ?thesis by (simp only: x_def)
qed

lemma f64_rnd_of_int:
  assumes "\<bar>n\<bar> \<le> 2 ^ 53"
  shows "f64_rnd (of_int n) = of_int n"
proof -
  have pos: "f64_rnd (of_int m) = of_int m" if "0 < m" "m \<le> 2 ^ 53" for m :: int
  proof (cases "m = 2 ^ 53")
    case True
    have "f64_rnd (of_int 1 * 2 powi 53) = of_int 1 * 2 powi 53"
      by (rule f64_rnd_exact_pos) simp_all
    then show ?thesis using True by simp
  next
    case False
    then have "m < 2 ^ 53" using that by simp
    then have "f64_rnd (of_int m * 2 powi 0) = of_int m * 2 powi 0"
      using that by (intro f64_rnd_exact_pos) simp_all
    then show ?thesis by simp
  qed
  consider "0 < n" | "n = 0" | "n < 0" by linarith
  then show ?thesis
  proof cases
    case 1
    then show ?thesis using assms pos[of n] by simp
  next
    case 2
    then show ?thesis by (simp add: f64_rnd_def)
  next
    case 3
    then have "f64_rnd (of_int (- n)) = of_int (- n)" using assms by (intro pos) simp_all
    then show ?thesis by (simp add: f64_rnd_minus)
  qed
qed

section \<open>The score and the response count\<close>

lemma wrap64_id: "- (2 ^ 63) \<le> x \<Longrightarrow> x < 2 ^ 63 \<Longrightarrow> wrap64 x = x"
  by (simp add: wrap64_def)

lemma f64_rnd_one: "f64_rnd 1 = 1"
  using f64_rnd_of_int[of 1] by simp

lemma f64_rnd_hundred: "f64_rnd 100 = 100"
  using f64_rnd_of_int[of 100] by simp

lemma f64_rnd_zero: "f64_rnd 0 = 0"
  by (simp add: f64_rnd_def)

lemma ilog2_zero: "ilog2 0 = 0"
  by (simp add: ilog2_def blen.simps)

lemma ilog2_le:
  assumes "0 < x" "x \<le> 2 powi k"
  shows "ilog2 x \<le> k"
proof (rule ccontr)
  assume "\<not> ilog2 x \<le> k"
  then have "k + 1 \<le> ilog2 x" by simp
  then have "(2::rat) powi (k + 1) \<le> 2 powi (ilog2 x)"
    by (intro power_int_increasing) simp_all
  moreover have "(2::rat) powi k < 2 powi (k + 1)"
    by (intro power_int_strict_increasing) simp_all
  ultimately show False using ilog2_bounds(1)[OF assms(1)] assms(2) by linarith
qed

lemma f64_round_small:
  assumes "\<bar>x\<bar> \<le> 2 ^ 63"
  shows "f64_round x = Fin (f64_rnd x)"
proof -
  define M :: rat where "M = 2 powi 63"
  have M: "M = 2 ^ 63" by (simp add: M_def)
  have rM: "f64_rnd M = M" unfolding M_def using f64_rnd_exact_pos[of 1 63] by simp
  have x: "- M \<le> x" "x \<le> M" using assms by (simp_all add: M abs_le_iff)
  have "f64_rnd x \<le> f64_rnd M" using x(2) by (rule f64_rnd_mono)
  moreover have "f64_rnd (- M) \<le> f64_rnd x" using x(1) by (rule f64_rnd_mono)
  ultimately have r: "\<bar>f64_rnd x\<bar> \<le> M"
    by (simp only: f64_rnd_minus rM abs_le_iff) simp
  have "ilog2 \<bar>f64_rnd x\<bar> \<le> 63"
  proof (cases "f64_rnd x = 0")
    case True
    then show ?thesis by (simp add: ilog2_zero)
  next
    case False
    then have "0 < \<bar>f64_rnd x\<bar>" by simp
    then show ?thesis using r unfolding M_def by (rule ilog2_le)
  qed
  then have "\<not> 1024 \<le> ilog2 \<bar>f64_rnd x\<bar>" by simp
  then show ?thesis by (simp only: f64_round_def Let_def if_False)
qed

lemma float64_of_int_small:
  assumes "\<bar>n\<bar> \<le> 2 ^ 63"
  shows "float64_of_int n = Fin (f64_rnd (of_int n))"
proof -
  have "(of_int \<bar>n\<bar> :: rat) \<le> of_int (2 ^ 63)" using assms by (simp only: of_int_le_iff)
  then have "\<bar>of_int n :: rat\<bar> \<le> 2 ^ 63"
    by (simp only: of_int_abs of_int_power of_int_numeral)
  then show ?thesis unfolding float64_of_int_def by (rule f64_round_small)
qed

lemma float64_of_int_exact:
  assumes "\<bar>n\<bar> \<le> 2 ^ 53"
  shows "float64_of_int n = Fin (of_int n)"
proof -
  have "(2::int) ^ 53 \<le> 2 ^ 63" by simp
  then have "\<bar>n\<bar> \<le> 2 ^ 63" using assms by linarith
  then show ?thesis using f64_rnd_of_int[OF assms] by (simp add: float64_of_int_small)
qed

lemma NPS_value:
  assumes "0 \<le> p" "0 \<le> s" "0 \<le> d" "0 < p + s + d" "p + s + d < 2 ^ 63"
  shows "NPS p s d =
           Fin (f64_rnd (f64_rnd (f64_rnd (of_int (p - d)) / f64_rnd (of_int (p + s + d))) * 100))"
    and "\<bar>f64_rnd (f64_rnd (of_int (p - d)) / f64_rnd (of_int (p + s + d)))\<bar> \<le> 1"
    and "0 < f64_rnd (of_int (p + s + d))"
proof -
  define a where "a = p - d"
  define T where "T = p + s + d"
  define A where "A = f64_rnd (of_int a)"
  define B where "B = f64_rnd (of_int T)"
  define Q where "Q = f64_rnd (A / B)"
  have aT: "- T \<le> a" "a \<le> T" "1 \<le> T" "T < 2 ^ 63"
    using assms by (simp_all add: a_def T_def)
  have sub: "sub64 p d = a" using assms by (simp add: sub64_def wrap64_id a_def)
  have add: "add64 (add64 p s) d = T" using assms by (simp add: add64_def wrap64_id T_def)
  have fa: "float64_of_int a = Fin A"
    unfolding A_def using aT by (intro float64_of_int_small) simp
  have fb: "float64_of_int T = Fin B"
    unfolding B_def using aT by (intro float64_of_int_small) simp
  have "(of_int 1 :: rat) \<le> of_int T" using aT(3) by (simp only: of_int_le_iff)
  then have "f64_rnd (of_int 1) \<le> B" unfolding B_def by (rule f64_rnd_mono)
  then have Bpos: "0 < B" by (simp add: f64_rnd_one)
  have "(of_int a :: rat) \<le> of_int T" using aT(2) by (simp only: of_int_le_iff)
  then have AB2: "A \<le> B" unfolding A_def B_def by (rule f64_rnd_mono)
  have "(- of_int T :: rat) \<le> of_int a" using aT(1) by (simp flip: of_int_minus)
  then have "f64_rnd (- of_int T) \<le> A" unfolding A_def by (rule f64_rnd_mono)
  then have AB1: "- B \<le> A" by (simp only: f64_rnd_minus B_def)
  have q: "- 1 \<le> A / B" "A / B \<le> 1" using Bpos AB1 AB2 by (simp_all add: field_simps)
  have "f64_rnd (- 1) \<le> Q" "Q \<le> f64_rnd 1"
    unfolding Q_def using q by (intro f64_rnd_mono; simp)+
  then have Q: "- 1 \<le> Q" "Q \<le> 1" by (simp_all add: f64_rnd_minus f64_rnd_one)
  have "\<bar>A / B\<bar> \<le> 1" using q by (simp add: abs_le_iff)
  moreover have "(1::rat) \<le> 2 ^ 63" by simp
  ultimately have "\<bar>A / B\<bar> \<le> 2 ^ 63" by linarith
  then have "f64_round (A / B) = Fin Q" unfolding Q_def by (rule f64_round_small)
  then have dv: "f64_div (Fin A) (Fin B) = Fin Q" using Bpos by simp
  have "\<bar>Q * 100\<bar> \<le> 100" using Q by (simp add: abs_le_iff)
  moreover have "(100::rat) \<le> 2 ^ 63" by simp
  ultimately have "\<bar>Q * 100\<bar> \<le> 2 ^ 63" by linarith
  then have "f64_round (Q * 100) = Fin (f64_rnd (Q * 100))" by (rule f64_round_small)
  then have ml: "f64_mul (Fin Q) (Fin 100) = Fin (f64_rnd (Q * 100))" by simp
  have "NPS p s d = Fin (f64_rnd (Q * 100))"
    by (simp only: NPS_def sub add fa fb dv ml)
  then show "NPS p s d =
           Fin (f64_rnd (f64_rnd (f64_rnd (of_int (p - d)) / f64_rnd (of_int (p + s + d))) * 100))"
    by (simp only: Q_def A_def B_def a_def T_def)
  show "\<bar>f64_rnd (f64_rnd (of_int (p - d)) / f64_rnd (of_int (p + s + d)))\<bar> \<le> 1"
    using Q unfolding Q_def A_def B_def a_def T_def by (simp only: abs_le_iff) simp
  show "0 < f64_rnd (of_int (p + s + d))" using Bpos by (simp only: B_def T_def)
qed

text \<open>
  Claim C2, as amended. For counts \<open>p\<close>, \<open>s\<close>, \<open>d\<close>, none negative and not all zero, whose
  sum is below \<open>2 ^ 63\<close> and so does not wrap, the score \<open>NPS p s d\<close> is a number between
  \<open>-100\<close> and \<open>100\<close>; and for every positive \<^verbatim>\<open>int\<close> \<open>k\<close> the scores of \<open>(k, 0, 0)\<close>,
  \<open>(0, 0, k)\<close> and \<open>(0, k, 0)\<close> are exactly \<open>100\<close>, \<open>-100\<close> and \<open>0\<close>. The roundings of the
  conversion, the division and the multiplication never leave the interval.
\<close>

theorem NPS_range:
  assumes "0 \<le> p" "0 \<le> s" "0 \<le> d" "0 < p + s + d" "p + s + d < 2 ^ 63"
    and "0 < k" "k < 2 ^ 63"
  shows "f64_le (Fin (- 100)) (NPS p s d) \<and> f64_le (NPS p s d) (Fin 100)
         \<and> NPS k 0 0 = Fin 100 \<and> NPS 0 0 k = Fin (- 100) \<and> NPS 0 k 0 = Fin 0"
proof -
  define Q where "Q = f64_rnd (f64_rnd (of_int (p - d)) / f64_rnd (of_int (p + s + d)))"
  have v: "NPS p s d = Fin (f64_rnd (Q * 100))" and Q: "\<bar>Q\<bar> \<le> 1"
    using NPS_value(1,2)[OF assms(1-5)] by (simp_all add: Q_def)
  have "f64_rnd (- 100) \<le> f64_rnd (Q * 100)" "f64_rnd (Q * 100) \<le> f64_rnd 100"
    using Q by (intro f64_rnd_mono; simp add: abs_le_iff)+
  then have r: "f64_le (Fin (- 100)) (NPS p s d) \<and> f64_le (NPS p s d) (Fin 100)"
    by (simp add: v f64_rnd_minus f64_rnd_hundred)
  have kp: "0 < f64_rnd (of_int k)" using NPS_value(3)[of k 0 0] assms(6,7) by simp
  have "NPS k 0 0 = Fin (f64_rnd (f64_rnd (f64_rnd (of_int k) / f64_rnd (of_int k)) * 100))"
    using NPS_value(1)[of k 0 0] assms(6,7) by simp
  then have a: "NPS k 0 0 = Fin 100" using kp by (simp add: f64_rnd_one f64_rnd_hundred)
  have "NPS 0 0 k = Fin (f64_rnd (f64_rnd (f64_rnd (of_int (- k)) / f64_rnd (of_int k)) * 100))"
    using NPS_value(1)[of 0 0 k] assms(6,7) by simp
  then have b: "NPS 0 0 k = Fin (- 100)"
    using kp by (simp add: f64_rnd_minus f64_rnd_one f64_rnd_hundred)
  have "NPS 0 k 0 = Fin (f64_rnd (f64_rnd (f64_rnd (of_int 0) / f64_rnd (of_int k)) * 100))"
    using NPS_value(1)[of 0 k 0] assms(6,7) by simp
  then have c: "NPS 0 k 0 = Fin 0" by (simp add: f64_rnd_zero)
  show ?thesis using r a b c by simp
qed

theorem NPS_range_witness:
  "f64_le (Fin (- 100)) (NPS 3 1 1) \<and> f64_le (NPS 3 1 1) (Fin 100)
   \<and> NPS 5 0 0 = Fin 100 \<and> NPS 0 0 5 = Fin (- 100) \<and> NPS 0 5 0 = Fin 0"
  using NPS_range[of 3 1 1 5] by simp

text \<open>
  Against C2 as stated: three counts, none negative, whose sum wraps around to \<open>1\<close>. The
  score is far above \<open>100\<close>.
\<close>

theorem NPS_sum_wraps:
  "add64 (add64 9223372036854775807 9223372036854775807) 3 = 1
   \<and> NPS 9223372036854775807 9223372036854775807 3 = Fin 922337203685477580800
   \<and> \<not> f64_le (NPS 9223372036854775807 9223372036854775807 3) (Fin 100)"
  by code_simp

text \<open>Two more values by evaluation: a score that is rounded twice, and a negative count.\<close>

lemma NPS_3_1_1: "NPS 3 1 1 = Fin 40"
  by code_simp

lemma NPS_negative_count: "NPS 2 0 (- 1) = Fin 300"
  by code_simp

lemma NewReport_loop_Some:
  "NewReport_loop t (map Some xs) = Inr (foldl (\<lambda>t s. loop_body s t) t xs)"
  by (induction xs arbitrary: t) simp_all

lemma int_of_float64_of_int:
  assumes "0 \<le> n" "n \<le> 2 ^ 53"
  shows "int_of_float64 (float64_of_int n) = n"
proof -
  have "float64_of_int n = Fin (of_int n)" using assms by (intro float64_of_int_exact) simp
  moreover have "n < 2 ^ 63" using assms by simp
  ultimately show ?thesis using assms by (simp add: int_of_float64_def)
qed

text \<open>
  Claim C1. For a slice of \<open>N\<close> survey records the report is produced and its
  \<open>Responses\<close> is \<open>N\<close>, for \<open>N = 0\<close> too. \<open>Responses\<close> is \<^verbatim>\<open>int(float64(len(surveys)))\<close>;
  the conversion is exact up to \<open>2 ^ 53\<close>, which no slice of pointers in the address
  space of the machine exceeds.
\<close>

theorem Responses_count:
  assumes "length surveys \<le> 2 ^ 53"
  shows "\<exists>r. NewReport (map Some surveys) = Inr r \<and> Responses r = int (length surveys)"
proof -
  have "int (length surveys) \<le> 2 ^ 53" using assms by (simp add: of_nat_le_iff[symmetric] del: of_nat_le_iff)
  then have "int_of_float64 (float64_of_int (int (length surveys))) = int (length surveys)"
    by (intro int_of_float64_of_int) simp_all
  then show ?thesis by (simp add: NewReport_def NewReport_loop_Some Let_def)
qed

theorem Responses_count_witness:
  "\<exists>r. NewReport (map Some [Survey_zero, Survey_zero\<lparr>Q410 := 9\<rparr>]) = Inr r \<and> Responses r = 2"
  using Responses_count[of "[Survey_zero, Survey_zero\<lparr>Q410 := 9\<rparr>]"] by simp

lemma Responses_empty: "map_sum id Responses (NewReport []) = Inr 0"
  by code_simp

section \<open>The three counters of the loop\<close>

lemma sums_step_counters [simp]:
  "promoters (sums_step s t) = promoters t"
  "passives (sums_step s t) = passives t"
  "detractors (sums_step s t) = detractors t"
  by (simp_all add: sums_step_def)

lemma add64_one: "0 \<le> c \<Longrightarrow> c + 1 < 2 ^ 63 \<Longrightarrow> add64 c 1 = c + 1"
  by (simp add: add64_def wrap64_id)

lemma loop_body_counters:
  assumes "0 \<le> promoters t" "promoters t + 1 < 2 ^ 63"
    and "0 \<le> passives t" "passives t + 1 < 2 ^ 63"
    and "0 \<le> detractors t" "detractors t + 1 < 2 ^ 63"
  shows "promoters (loop_body s t) = promoters t + (if 9 \<le> Q410 s then 1 else 0)"
    and "passives (loop_body s t) = passives t + (if 7 \<le> Q410 s \<and> Q410 s < 9 then 1 else 0)"
    and "detractors (loop_body s t) = detractors t + (if 0 \<le> Q410 s \<and> Q410 s < 7 then 1 else 0)"
  using assms by (auto simp: loop_body_def nps_step_def add64_one)

lemma loop_counters:
  assumes "0 \<le> promoters t" "promoters t + int (length xs) < 2 ^ 63"
    and "0 \<le> passives t" "passives t + int (length xs) < 2 ^ 63"
    and "0 \<le> detractors t" "detractors t + int (length xs) < 2 ^ 63"
  shows "promoters (foldl (\<lambda>t s. loop_body s t) t xs)
           = promoters t + int (length (filter (\<lambda>s. 9 \<le> Q410 s) xs))
         \<and> passives (foldl (\<lambda>t s. loop_body s t) t xs)
           = passives t + int (length (filter (\<lambda>s. 7 \<le> Q410 s \<and> Q410 s < 9) xs))
         \<and> detractors (foldl (\<lambda>t s. loop_body s t) t xs)
           = detractors t + int (length (filter (\<lambda>s. 0 \<le> Q410 s \<and> Q410 s < 7) xs))"
  using assms
proof (induction xs arbitrary: t)
  case Nil
  then show ?case by simp
next
  case (Cons x xs)
  have b: "promoters t + 1 < 2 ^ 63" "passives t + 1 < 2 ^ 63" "detractors t + 1 < 2 ^ 63"
    using Cons.prems by simp_all
  note st = loop_body_counters[OF Cons.prems(1) b(1) Cons.prems(3) b(2) Cons.prems(5) b(3), of x]
  have "promoters (foldl (\<lambda>t s. loop_body s t) (loop_body x t) xs)
           = promoters (loop_body x t) + int (length (filter (\<lambda>s. 9 \<le> Q410 s) xs))
         \<and> passives (foldl (\<lambda>t s. loop_body s t) (loop_body x t) xs)
           = passives (loop_body x t) + int (length (filter (\<lambda>s. 7 \<le> Q410 s \<and> Q410 s < 9) xs))
         \<and> detractors (foldl (\<lambda>t s. loop_body s t) (loop_body x t) xs)
           = detractors (loop_body x t) + int (length (filter (\<lambda>s. 0 \<le> Q410 s \<and> Q410 s < 7) xs))"
    using Cons.prems by (intro Cons.IH) (simp_all add: st)
  then show ?case by (simp add: st)
qed

lemma tally_zero_counters [simp]:
  "promoters tally_zero = 0" "passives tally_zero = 0" "detractors tally_zero = 0"
  by (simp_all add: tally_zero_def)

text \<open>
  Claim C3, as amended. After the loop the counter of promoters holds the number of
  records with a score of 9 or more (so a score above 10 is a promoter's), the counter of
  passives the number with a score of 7 or 8, and the counter of detractors the number
  with a score from 0 to 6; a record with a negative score is counted by none of them,
  and the score 0 that an absent or unparsable answer leaves is a detractor's.
\<close>

theorem nps_buckets:
  assumes "length surveys < 2 ^ 63"
  shows "\<exists>t. NewReport_loop tally_zero (map Some surveys) = Inr t
           \<and> promoters t = int (length (filter (\<lambda>s. 9 \<le> Q410 s) surveys))
           \<and> passives t = int (length (filter (\<lambda>s. 7 \<le> Q410 s \<and> Q410 s < 9) surveys))
           \<and> detractors t = int (length (filter (\<lambda>s. 0 \<le> Q410 s \<and> Q410 s < 7) surveys))"
proof -
  have "int (length surveys) < 2 ^ 63"
    using assms by (simp add: of_nat_less_iff[symmetric] del: of_nat_less_iff)
  then show ?thesis
    using loop_counters[of tally_zero surveys] by (simp add: NewReport_loop_Some)
qed

theorem nps_buckets_witness:
  "\<exists>t. NewReport_loop tally_zero
         (map Some [Survey_zero\<lparr>Q410 := 10\<rparr>, Survey_zero\<lparr>Q410 := 8\<rparr>, Survey_zero\<lparr>Q410 := 3\<rparr>,
                    Survey_zero\<lparr>Q410 := - 1\<rparr>, Survey_zero, Survey_zero\<lparr>Q410 := 11\<rparr>]) = Inr t
       \<and> promoters t = 2 \<and> passives t = 1 \<and> detractors t = 2"
  using nps_buckets[of "[Survey_zero\<lparr>Q410 := 10\<rparr>, Survey_zero\<lparr>Q410 := 8\<rparr>,
                         Survey_zero\<lparr>Q410 := 3\<rparr>, Survey_zero\<lparr>Q410 := - 1\<rparr>, Survey_zero,
                         Survey_zero\<lparr>Q410 := 11\<rparr>]"]
  by (simp add: Survey_zero_def)

text \<open>
  Against C3 as stated: the record of a respondent who gave no score at all (the zero
  value) raises the counter of detractors, and a score of 11, outside the scale, raises
  the counter of promoters.
\<close>

theorem absent_score_is_detractor:
  "Q410 Survey_zero = 0
   \<and> map_sum id detractors (NewReport_loop tally_zero [Some Survey_zero]) = Inr 1
   \<and> map_sum id promoters (NewReport_loop tally_zero [Some (Survey_zero\<lparr>Q410 := 11\<rparr>)]) = Inr 1"
  by (simp add: Survey_zero_def loop_body_def nps_step_def tally_zero_def sums_step_def add64_def
      wrap64_def)

section \<open>Batches without data\<close>

lemma NPS_zero_counts: "NPS 0 0 0 = NaN"
  by (simp add: NPS_def sub64_def add64_def wrap64_def float64_of_int_def f64_round_def
      f64_rnd_def ilog2_zero)

lemma float64_of_int_zero: "float64_of_int 0 = Fin 0"
  by (simp add: float64_of_int_def f64_round_def f64_rnd_def ilog2_zero)

lemma loop_counters_negative:
  assumes "\<forall>s \<in> set xs. Q410 s < 0"
  shows "promoters (foldl (\<lambda>t s. loop_body s t) t xs) = promoters t
         \<and> passives (foldl (\<lambda>t s. loop_body s t) t xs) = passives t
         \<and> detractors (foldl (\<lambda>t s. loop_body s t) t xs) = detractors t"
  using assms by (induction xs arbitrary: t) (simp_all add: loop_body_def nps_step_def)

text \<open>
  Claim C4, as amended. Nothing guards the divisions. For an empty slice the report is
  returned with \<open>Responses = 0\<close> and with NaN, the value of \<open>0 / 0\<close>, as each of the four
  averages and as the score; for a slice in which every recommendation score is negative
  the score is NaN as well. No panic comes of either.
\<close>

theorem degenerate_batch_NaN:
  "(\<exists>r. NewReport [] = Inr r \<and> Responses r = 0 \<and> CurriculumAvg r = NaN
        \<and> InstructorAvg r = NaN \<and> EnvironmentAvg r = NaN \<and> OverallAvg r = NaN
        \<and> Report_NPS r = NaN)
   \<and> ((\<forall>s \<in> set surveys. Q410 s < 0) \<longrightarrow>
        (\<exists>r. NewReport (map Some surveys) = Inr r \<and> Report_NPS r = NaN))"
proof (intro conjI impI)
  show "\<exists>r. NewReport [] = Inr r \<and> Responses r = 0 \<and> CurriculumAvg r = NaN
        \<and> InstructorAvg r = NaN \<and> EnvironmentAvg r = NaN \<and> OverallAvg r = NaN
        \<and> Report_NPS r = NaN"
    by (simp add: NewReport_def tally_zero_def float64_of_int_zero int_of_float64_def
        NPS_zero_counts)
next
  assume "\<forall>s \<in> set surveys. Q410 s < 0"
  then show "\<exists>r. NewReport (map Some surveys) = Inr r \<and> Report_NPS r = NaN"
    using loop_counters_negative[of surveys tally_zero]
    by (simp add: NewReport_def NewReport_loop_Some Let_def NPS_zero_counts)
qed

theorem degenerate_batch_NaN_witness:
  "\<exists>r. NewReport (map Some [Survey_zero\<lparr>Q410 := - 1\<rparr>, Survey_zero\<lparr>Q410 := - 5\<rparr>]) = Inr r
       \<and> Report_NPS r = NaN"
  using degenerate_batch_NaN[of "[Survey_zero\<lparr>Q410 := - 1\<rparr>, Survey_zero\<lparr>Q410 := - 5\<rparr>]"]
  by simp

text \<open>
  Against C4 as stated: the report of no records has NaN as its score and as its averages,
  not a sentinel number.
\<close>

theorem empty_batch_is_NaN:
  "map_sum id Report_NPS (NewReport []) = Inr NaN
   \<and> map_sum id CurriculumAvg (NewReport []) = Inr NaN
   \<and> map_sum id OverallAvg (NewReport []) = Inr NaN"
  by (simp add: NewReport_def tally_zero_def float64_of_int_zero NPS_zero_counts)

section \<open>The denominator of the score\<close>












section \<open>The converter: errors and keys\<close>

lemma Contains_Nil: "Contains s []"
  by (cases s) (simp_all add: HasPrefix_def)



lemma scan_invalid_error:
  assumes "\<not> Contains bad ''=''"
  shows "snd (TxtToJSON_scan buf (pre @ bad # post)) = Some (ErrorString ''invalid input'')"
  using assms by (induction pre arbitrary: buf) simp_all

lemma scan_invalid_same:
  assumes "\<not> Contains bad ''=''" "\<not> Contains bad' ''=''"
  shows "TxtToJSON_scan buf (pre @ bad # post) = TxtToJSON_scan buf (pre @ bad' # post')"
  using assms by (induction pre arbitrary: buf) simp_all


section \<open>What the written bytes decode to\<close>





lemma Replace_dash:
  "n < 0 \<Longrightarrow> Replace s ''-'' [] n = filter (\<lambda>c. c \<noteq> CHR ''-'') s"
  by (induction s arbitrary: n) (auto simp: HasPrefix_def)

lemma Replace_comma_nl:
  "nl \<notin> set xs \<Longrightarrow> Replace (xs @ [CHR '','', nl]) [CHR '','', nl] [nl] 1 = xs @ [nl]"
proof (induction xs)
  case Nil
  then show ?case by (simp add: HasPrefix_def)
next
  case (Cons c xs)
  then have "\<not> HasPrefix (c # xs @ [CHR '','', nl]) [CHR '','', nl]"
    by (cases xs) (auto simp: HasPrefix_def)
  then show ?case using Cons by simp
qed

lemma Split_key: "sep \<notin> set k \<Longrightarrow> Split (k @ sep # r) sep = k # Split r sep"
  by (induction k) auto

lemma Split_nonempty: "Split r sep \<noteq> []"
  by (induction r) (auto split: list.splits)

lemma hd_Split: "hd (Split r sep) = takeWhile (\<lambda>c. c \<noteq> sep) r"
  using Split_nonempty by (induction r) (auto split: list.splits)

lemma Contains_char: "Contains s [c] = (c \<in> set s)"
  by (induction s) (auto simp: HasPrefix_def)

text \<open>Behind the guard on \<^verbatim>\<open>=\<close> the index \<^verbatim>\<open>question[1]\<close> is in range.\<close>

lemma Split_two_parts:
  assumes "Contains line ''=''"
  shows "2 \<le> length (Split line (CHR ''=''))"
proof -
  have "CHR ''='' \<in> set line" using assms by (simp add: Contains_char)
  then obtain k r where "line = k @ CHR ''='' # r" "CHR ''='' \<notin> set k"
    by (meson split_list_first)
  then show ?thesis
    using Split_nonempty[of r "CHR ''=''"] by (cases "Split r (CHR ''='')") (simp_all add: Split_key)
qed

lemma Split_second:
  "sep \<notin> set k \<Longrightarrow> Split (k @ sep # r) sep ! 1 = takeWhile (\<lambda>c. c \<noteq> sep) r"
  using hd_Split[of r sep] Split_nonempty[of r sep]
  by (simp add: Split_key hd_conv_nth)

lemma data_line_shape:
  assumes "CHR ''='' \<notin> set k" "nl \<notin> set k" "nl \<notin> set r"
  shows "\<exists>tail. data_line (k @ CHR ''='' # r)
            = [CHR '' '', CHR '' '', dq] @ filter (\<lambda>c. c \<noteq> CHR ''-'') k
                @ [dq, CHR '':'', CHR '' '', dq] @ takeWhile (\<lambda>c. c \<noteq> CHR ''='') r @ dq # tail
          \<and> (tail = [CHR '','', nl] \<or> tail = [nl])"
proof -
  define K where "K = filter (\<lambda>c. c \<noteq> CHR ''-'') k"
  define V where "V = takeWhile (\<lambda>c. c \<noteq> CHR ''='') r"
  define body where "body = [CHR '' '', CHR '' '', dq] @ K @ [dq, CHR '':'', CHR '' '', dq] @ V @ [dq]"
  have q0: "Replace (Split (k @ CHR ''='' # r) (CHR ''='') ! 0) ''-'' [] (- 1) = K"
    using assms(1) by (simp add: Split_key Replace_dash K_def)
  have q1: "Split (k @ CHR ''='' # r) (CHR ''='') ! 1 = V"
    unfolding V_def using assms(1) by (rule Split_second)
  have "set V \<subseteq> set r" unfolding V_def by (auto dest: set_takeWhileD)
  then have "nl \<notin> set body" using assms by (auto simp: body_def K_def)
  then have rp: "Replace (body @ [CHR '','', nl]) [CHR '','', nl] [nl] 1 = body @ [nl]"
    by (rule Replace_comma_nl)
  have "data_line (k @ CHR ''='' # r)
          = (if Contains (body @ [CHR '','', nl]) ''survey_ver'' then body @ [nl]
             else body @ [CHR '','', nl])"
    unfolding data_line_def Let_def q0 q1 using rp by (simp add: body_def)
  then show ?thesis unfolding body_def K_def V_def by auto
qed



text \<open>The comment \<^verbatim>\<open>say "hi"\<close> is read back as \<^verbatim>\<open>say \<close>.\<close>

lemma quoted_comment_bytes:
  "data_line (''Q508=say '' @ [dq] @ ''hi'' @ [dq])
     = [CHR '' '', CHR '' '', dq] @ ''Q508'' @ [dq, CHR '':'', CHR '' '', dq]
         @ ''say '' @ [dq] @ ''hi'' @ [dq] @ [dq, CHR '','', nl]"
  "json_member (data_line (''Q508=say '' @ [dq] @ ''hi'' @ [dq]))
     = Some ((''Q508'', ''say ''), ''hi'' @ [dq, dq, CHR '','', nl])"
  by code_simp+

section \<open>The converter: where a record ends\<close>

lemma scan_valid:
  assumes "\<forall>l \<in> set ls. Contains l ''=''"
  shows "TxtToJSON_scan buf ls
           = (TrimRight
                (buf @ concat (map (\<lambda>l. if l = ''='' then [CHR ''}'', nl, CHR ''{'', nl]
                                          else data_line l) ls))
                [CHR ''{'', nl], None)"
  using assms by (induction ls arbitrary: buf) simp_all

text \<open>
  The two other cases of C8 hold: no input gives no bytes and no error, and after a final
  separator the brace opened for a next record is trimmed, the output ending in the brace
  that closes the last one.
\<close>

lemma TxtToJSON_empty: "TxtToJSON [] = ([], None)"
  by (simp add: TxtToJSON_def TrimRight_def)

lemma TrimRight_keep: "c \<notin> set cutset \<Longrightarrow> TrimRight (s @ [c]) cutset = s @ [c]"
  by (simp add: TrimRight_def)

lemma TrimRight_drop: "c \<in> set cutset \<Longrightarrow> TrimRight (s @ [c]) cutset = TrimRight s cutset"
  by (simp add: TrimRight_def)

lemma TxtToJSON_terminated:
  assumes "\<forall>l \<in> set ls. Contains l ''=''"
  shows "\<exists>out. TxtToJSON (ls @ [''='']) = (out @ [CHR ''}''], None)"
proof -
  define body where "body = [CHR ''{'', nl] @ concat (map (\<lambda>l. if l = ''='' then [CHR ''}'', nl, CHR ''{'', nl]
                                          else data_line l) ls)"
  have c: "\<forall>l \<in> set (ls @ [''='']). Contains l ''=''" using assms by (simp add: HasPrefix_def)
  have "TxtToJSON (ls @ [''='']) = (TrimRight (body @ [CHR ''}'', nl, CHR ''{'', nl]) [CHR ''{'', nl], None)"
    unfolding TxtToJSON_def scan_valid[OF c] by (simp add: body_def)
  also have "TrimRight (body @ [CHR ''}'', nl, CHR ''{'', nl]) [CHR ''{'', nl] = body @ [CHR ''}'']"
    by (simp add: TrimRight_def)
  finally show ?thesis by blast
qed

text \<open>
  Claim C8, where the code departs from it. The closing brace of a record is written
  only when a separator line is read. Two lines of a record with no separator after them
  come out as an object that is never closed; with the separator the same two lines come
  out closed.
\<close>

theorem unterminated_record_unclosed:
  "TxtToJSON [''country=CA'', ''survey_ver=2'']
     = ([CHR ''{'', nl] @ ''  '' @ [dq] @ ''country'' @ [dq] @ '': '' @ [dq] @ ''CA'' @ [dq, CHR '','', nl]
          @ ''  '' @ [dq] @ ''survey_ver'' @ [dq] @ '': '' @ [dq] @ ''2'' @ [dq], None)
   \<and> TxtToJSON [''country=CA'', ''survey_ver=2'', ''='']
     = ([CHR ''{'', nl] @ ''  '' @ [dq] @ ''country'' @ [dq] @ '': '' @ [dq] @ ''CA'' @ [dq, CHR '','', nl]
          @ ''  '' @ [dq] @ ''survey_ver'' @ [dq] @ '': '' @ [dq] @ ''2'' @ [dq, nl, CHR ''}''], None)"
  by code_simp

text \<open>
  The same for every input of accepted lines that ends in a data line: the output ends
  in a quote or a comma, never in the closing brace.
\<close>

lemma final_data_line_unclosed:
  assumes "\<forall>l \<in> set ls. Contains l ''=''" "Contains l ''=''" "l \<noteq> ''=''" "nl \<notin> set l"
  shows "\<exists>out c. TxtToJSON (ls @ [l]) = (out @ [c], None) \<and> (c = dq \<or> c = CHR '','')"
proof -
  have "CHR ''='' \<in> set l" using assms(2) by (simp add: Contains_char)
  then obtain k r where l: "l = k @ CHR ''='' # r" "CHR ''='' \<notin> set k"
    by (meson split_list_first)
  have nk: "nl \<notin> set k" "nl \<notin> set r" using assms(4) l by simp_all
  from data_line_shape[OF l(2) nk] obtain tail where
    d0: "data_line l = [CHR '' '', CHR '' '', dq] @ filter (\<lambda>c. c \<noteq> CHR ''-'') k
                @ [dq, CHR '':'', CHR '' '', dq] @ takeWhile (\<lambda>c. c \<noteq> CHR ''='') r @ dq # tail"
    and tail: "tail = [CHR '','', nl] \<or> tail = [nl]"
    unfolding l(1) by blast
  define body where "body = [CHR '' '', CHR '' '', dq] @ filter (\<lambda>c. c \<noteq> CHR ''-'') k
                @ [dq, CHR '':'', CHR '' '', dq] @ takeWhile (\<lambda>c. c \<noteq> CHR ''='') r"
  have d: "data_line l = body @ dq # tail" using d0 by (simp add: body_def)
  define pre where "pre = [CHR ''{'', nl] @ concat (map (\<lambda>l. if l = ''='' then [CHR ''}'', nl, CHR ''{'', nl]
                                          else data_line l) ls)"
  have c: "\<forall>x \<in> set (ls @ [l]). Contains x ''=''" using assms(1,2) by simp
  have "TxtToJSON (ls @ [l]) = (TrimRight (pre @ body @ dq # tail) [CHR ''{'', nl], None)"
    unfolding TxtToJSON_def scan_valid[OF c] using assms(3) by (simp add: pre_def d)
  moreover have "TrimRight (pre @ body @ dq # tail) [CHR ''{'', nl] = (pre @ body @ [dq] @ butlast tail)"
    using tail by (auto simp: TrimRight_def)
  ultimately have "TxtToJSON (ls @ [l]) = (pre @ body @ [dq] @ butlast tail, None)" by simp
  then show ?thesis using tail
    by (metis append.assoc append_Nil2 butlast.simps(2) list.distinct(1) append_Cons)
qed

section \<open>The converter: a line without the delimiter\<close>

lemma line_bytes_fun:
  "(\<lambda>l. if l = ''='' then [CHR ''}'', nl, CHR ''{'', nl] else data_line l) = line_bytes"
  by (rule ext) (simp add: line_bytes_def)

lemma scan_first_invalid:
  assumes "\<forall>l \<in> set pre. Contains l ''=''" "\<not> Contains bad ''=''"
  shows "TxtToJSON_scan buf (pre @ bad # post)
           = (buf @ concat (map line_bytes pre), Some (ErrorString ''invalid input''))"
  using assms by (induction pre arbitrary: buf) (simp_all add: line_bytes_def)

lemma Split_lines:
  assumes "\<forall>l \<in> set ls. sep \<notin> set l"
  shows "Split (concat (map (\<lambda>l. l @ [sep]) ls) @ r) sep = ls @ Split r sep"
  using assms by (induction ls) (simp_all add: Split_key)

lemma Split_first:
  "\<exists>Y. Split r sep = takeWhile (\<lambda>c. c \<noteq> sep) r # Y"
  using hd_Split[of r sep] Split_nonempty[of r sep] by (cases "Split r sep") simp_all

lemma Split_no_sep: "sep \<notin> set s \<Longrightarrow> Split s sep = [s]"
  by (induction s) auto

lemma scanner_lines_prefix:
  assumes "Split input nl = pre @ p # Y" "p \<noteq> [] \<or> Y \<noteq> []"
    and "\<forall>l \<in> set pre. length l < MaxScanTokenSize"
  shows "\<exists>Y'. scanner_lines input
           = map dropCR pre
               @ (if length p < MaxScanTokenSize then dropCR p # Y' else [])"
proof -
  define raw where "raw = (if last (pre @ p # Y) = [] then butlast (pre @ p # Y) else pre @ p # Y)"
  have "\<exists>Z. raw = pre @ p # Z"
  proof (cases "Y = []")
    case True
    then show ?thesis using assms(2) by (simp add: raw_def)
  next
    case False
    then have "butlast (pre @ p # Y) = pre @ p # butlast Y" by (simp add: butlast_append)
    then show ?thesis by (simp add: raw_def)
  qed
  then obtain Z where Z: "raw = pre @ p # Z" by blast
  have "takeWhile (\<lambda>p. length p < MaxScanTokenSize) raw
          = pre @ (if length p < MaxScanTokenSize
                   then p # takeWhile (\<lambda>p. length p < MaxScanTokenSize) Z else [])"
    unfolding Z using assms(3) by (simp add: takeWhile_append2)
  then show ?thesis
    unfolding scanner_lines_def Let_def assms(1) raw_def[symmetric] by auto
qed

lemma Contains_dropCR: "Contains (dropCR l) ''='' = Contains l ''=''"
proof (cases "l \<noteq> [] \<and> last l = CHR 0x0D")
  case True
  then have "l = butlast l @ [CHR 0x0D]" by (metis append_butlast_last_id)
  then have "set l = insert (CHR 0x0D) (set (butlast l))"
    by (metis Un_insert_right append_Nil2 list.simps(15) set_append)
  then show ?thesis using True by (auto simp: Contains_char dropCR_def)
next
  case False
  then show ?thesis by (auto simp: dropCR_def)
qed

lemma reader_first_invalid:
  assumes "Split input nl = pre @ bad # Y" "bad \<noteq> [] \<or> Y \<noteq> []"
    and "\<forall>l \<in> set pre. length l < MaxScanTokenSize \<and> Contains l ''=''"
    and "length bad < MaxScanTokenSize" "\<not> Contains bad ''=''"
  shows "TxtToJSON (scanner_lines input)
           = ([CHR ''{'', nl] @ concat (map (\<lambda>l. line_bytes (dropCR l)) pre),
              Some (ErrorString ''invalid input''))"
proof -
  from scanner_lines_prefix[OF assms(1,2)] assms(3,4) obtain Y' where
    s: "scanner_lines input = map dropCR pre @ dropCR bad # Y'" by auto
  have "\<forall>l \<in> set (map dropCR pre). Contains l ''=''" using assms(3) by (simp add: Contains_dropCR)
  moreover have "\<not> Contains (dropCR bad) ''=''" using assms(5) by (simp add: Contains_dropCR)
  ultimately show ?thesis
    unfolding s TxtToJSON_def by (simp add: scan_first_invalid comp_def)
qed

lemma reader_long_line:
  assumes "Split input nl = pre @ p # Y" "MaxScanTokenSize \<le> length p"
    and "\<forall>l \<in> set pre. length l < MaxScanTokenSize"
  shows "scanner_lines input = map dropCR pre"
proof -
  have "p \<noteq> [] \<or> Y \<noteq> []" using assms(2) by (auto simp: MaxScanTokenSize_def)
  from scanner_lines_prefix[OF assms(1) this assms(3)] show ?thesis using assms(2) by auto
qed

lemma main_Fatal:
  "TxtToJSON ls = (b, Some (ErrorString e))
     \<Longrightarrow> main NewDecoder More Decode ls
           = Fatal (''[INFO] Error converting txt to JSON: '' @ e @ [nl])"
  by (simp add: main_def)

lemma written_example:
  "line_bytes ''country=CA''
     = [CHR '' '', CHR '' '', dq] @ ''country'' @ [dq, CHR '':'', CHR '' '', dq] @ ''CA''
         @ [dq, CHR '','', nl]"
  "dropCR ''country=CA'' = ''country=CA''"
  "TrimRight ([CHR ''{'', nl] @ [CHR '' '', CHR '' '', dq] @ ''country''
                @ [dq, CHR '':'', CHR '' '', dq] @ ''CA'' @ [dq, CHR '','', nl]) [CHR ''{'', nl]
     = [CHR ''{'', nl] @ [CHR '' '', CHR '' '', dq] @ ''country''
         @ [dq, CHR '':'', CHR '' '', dq] @ ''CA'' @ [dq, CHR '','']"
  by code_simp+

text \<open>
  Claim C5, as amended. The first line without \<^verbatim>\<open>=\<close> ends the conversion there.
  \<^verbatim>\<open>TxtToJSON\<close> returns its buffer as it stands, untrimmed: the opening brace and newline
  followed by what the loop wrote for each line before, together with the error
  \<^verbatim>\<open>invalid input\<close>. The result holds nothing of the offending line nor of any line
  after it, so the error does not say which line it was, and \<^verbatim>\<open>main\<close> ends in
  \<^verbatim>\<open>log.Fatalf\<close> with that message before any report. On the bytes of the reader the
  same holds when every line up to and including the offending one is shorter than
  \<^verbatim>\<open>MaxScanTokenSize\<close>, each line being read without its trailing carriage return,
  whether the offending line ends in a newline or ends the input. A line of
  \<^verbatim>\<open>MaxScanTokenSize\<close> bytes or more, with or without \<^verbatim>\<open>=\<close>, ends the scan instead: the
  lines before it are converted, the result is trimmed and the error is nil.
\<close>

theorem invalid_line_fatal:
  assumes "\<forall>l \<in> set pre. Contains l ''=''" and "\<not> Contains bad ''=''"
  shows "TxtToJSON (pre @ bad # post)
           = ([CHR ''{'', nl] @ concat (map line_bytes pre), Some (ErrorString ''invalid input''))
         \<and> (\<not> Contains bad' ''='' \<longrightarrow>
              TxtToJSON (pre @ bad # post) = TxtToJSON (pre @ bad' # post'))
         \<and> main NewDecoder More Decode (pre @ bad # post)
             = Fatal (''[INFO] Error converting txt to JSON: invalid input'' @ [nl])
         \<and> ((\<forall>l \<in> set (pre @ [bad]). nl \<notin> set l \<and> length l < MaxScanTokenSize)
              \<and> (input = concat (map (\<lambda>l. l @ [nl]) pre) @ bad @ nl # rest
                  \<or> bad \<noteq> [] \<and> input = concat (map (\<lambda>l. l @ [nl]) pre) @ bad) \<longrightarrow>
              TxtToJSON_reader input
                = ([CHR ''{'', nl] @ concat (map (\<lambda>l. line_bytes (dropCR l)) pre),
                   Some (ErrorString ''invalid input''))
              \<and> main NewDecoder More Decode (scanner_lines input)
                  = Fatal (''[INFO] Error converting txt to JSON: invalid input'' @ [nl]))
         \<and> ((\<forall>l \<in> set pre. nl \<notin> set l \<and> length l < MaxScanTokenSize)
              \<and> nl \<notin> set long \<and> MaxScanTokenSize \<le> length long \<longrightarrow>
              TxtToJSON_reader (concat (map (\<lambda>l. l @ [nl]) pre) @ long @ rest')
                = (TrimRight ([CHR ''{'', nl] @ concat (map (\<lambda>l. line_bytes (dropCR l)) pre))
                     [CHR ''{'', nl], None))"
proof -
  have 1: "TxtToJSON (pre @ bad # post)
           = ([CHR ''{'', nl] @ concat (map line_bytes pre), Some (ErrorString ''invalid input''))"
    unfolding TxtToJSON_def using assms by (rule scan_first_invalid)
  have 2: "TxtToJSON (pre @ bad # post) = TxtToJSON (pre @ bad' # post')"
    if "\<not> Contains bad' ''=''"
    unfolding TxtToJSON_def using assms(2) that by (rule scan_invalid_same)
  have 3: "main NewDecoder More Decode (pre @ bad # post)
             = Fatal (''[INFO] Error converting txt to JSON: invalid input'' @ [nl])"
    using main_Fatal[OF 1] by simp
  have 4: "TxtToJSON_reader input
                = ([CHR ''{'', nl] @ concat (map (\<lambda>l. line_bytes (dropCR l)) pre),
                   Some (ErrorString ''invalid input''))
              \<and> main NewDecoder More Decode (scanner_lines input)
                  = Fatal (''[INFO] Error converting txt to JSON: invalid input'' @ [nl])"
    if h: "\<forall>l \<in> set (pre @ [bad]). nl \<notin> set l \<and> length l < MaxScanTokenSize"
      and i: "input = concat (map (\<lambda>l. l @ [nl]) pre) @ bad @ nl # rest
                  \<or> bad \<noteq> [] \<and> input = concat (map (\<lambda>l. l @ [nl]) pre) @ bad"
  proof -
    have p: "\<forall>l \<in> set pre. nl \<notin> set l" and b: "nl \<notin> set bad" using h by simp_all
    have "\<exists>Y. Split input nl = pre @ bad # Y \<and> (bad \<noteq> [] \<or> Y \<noteq> [])"
      using i
    proof
      assume "input = concat (map (\<lambda>l. l @ [nl]) pre) @ bad @ nl # rest"
      then have "Split input nl = pre @ bad # Split rest nl"
        using Split_lines[OF p, of "bad @ nl # rest"] b by (simp add: Split_key)
      then show ?thesis using Split_nonempty[of rest nl] by blast
    next
      assume "bad \<noteq> [] \<and> input = concat (map (\<lambda>l. l @ [nl]) pre) @ bad"
      then have "Split input nl = pre @ [bad]" "bad \<noteq> []"
        using Split_lines[OF p, of bad] b by (simp_all add: Split_no_sep)
      then show ?thesis by blast
    qed
    then obtain Y where Y: "Split input nl = pre @ bad # Y" "bad \<noteq> [] \<or> Y \<noteq> []" by blast
    have "\<forall>l \<in> set pre. length l < MaxScanTokenSize \<and> Contains l ''=''"
      using h assms(1) by simp
    moreover have "length bad < MaxScanTokenSize" using h by simp
    ultimately have r: "TxtToJSON (scanner_lines input)
           = ([CHR ''{'', nl] @ concat (map (\<lambda>l. line_bytes (dropCR l)) pre),
              Some (ErrorString ''invalid input''))"
      using reader_first_invalid[OF Y] assms(2) by blast
    show ?thesis using r main_Fatal[OF r] by (simp add: TxtToJSON_reader_def)
  qed
  have 5: "TxtToJSON_reader (concat (map (\<lambda>l. l @ [nl]) pre) @ long @ rest')
                = (TrimRight ([CHR ''{'', nl] @ concat (map (\<lambda>l. line_bytes (dropCR l)) pre))
                     [CHR ''{'', nl], None)"
    if h: "\<forall>l \<in> set pre. nl \<notin> set l \<and> length l < MaxScanTokenSize"
      and l: "nl \<notin> set long" "MaxScanTokenSize \<le> length long"
  proof -
    have p: "\<forall>l \<in> set pre. nl \<notin> set l" using h by simp
    obtain Y where "Split (long @ rest') nl = takeWhile (\<lambda>c. c \<noteq> nl) (long @ rest') # Y"
      using Split_first by blast
    moreover have "takeWhile (\<lambda>c. c \<noteq> nl) (long @ rest') = long @ takeWhile (\<lambda>c. c \<noteq> nl) rest'"
      using l(1) by (intro takeWhile_append2) auto
    ultimately have s: "Split (concat (map (\<lambda>l. l @ [nl]) pre) @ long @ rest') nl
              = pre @ (long @ takeWhile (\<lambda>c. c \<noteq> nl) rest') # Y"
      using Split_lines[OF p, of "long @ rest'"] by simp
    have "MaxScanTokenSize \<le> length (long @ takeWhile (\<lambda>c. c \<noteq> nl) rest')" using l(2) by simp
    from reader_long_line[OF s this] h
    have sl: "scanner_lines (concat (map (\<lambda>l. l @ [nl]) pre) @ long @ rest') = map dropCR pre"
      by simp
    have "\<forall>l \<in> set (map dropCR pre). Contains l ''=''"
      using assms(1) by (simp add: Contains_dropCR)
    from scan_valid[OF this] show ?thesis
      unfolding TxtToJSON_reader_def sl TxtToJSON_def line_bytes_fun by (simp add: comp_def)
  qed
  show ?thesis using 1 2 3 4 5 by blast
qed

theorem invalid_line_fatal_witness:
  "TxtToJSON [''country=CA'', ''survey_ver 2'', ''='']
     = ([CHR ''{'', nl] @ [CHR '' '', CHR '' '', dq] @ ''country''
          @ [dq, CHR '':'', CHR '' '', dq] @ ''CA'' @ [dq, CHR '','', nl],
        Some (ErrorString ''invalid input''))
   \<and> TxtToJSON [''country=CA'', ''survey_ver 2'', ''='']
       = TxtToJSON [''country=CA'', ''Q311 five'', ''Q410=9'']
   \<and> main (\<lambda>b :: string. ()) (\<lambda>d. False) (\<lambda>d s. (s, None, d))
         [''country=CA'', ''survey_ver 2'', ''='']
       = Fatal (''[INFO] Error converting txt to JSON: invalid input'' @ [nl])
   \<and> TxtToJSON_reader (''country=CA'' @ [nl] @ ''survey_ver 2'' @ [nl] @ ''='' @ [nl])
       = ([CHR ''{'', nl] @ [CHR '' '', CHR '' '', dq] @ ''country''
            @ [dq, CHR '':'', CHR '' '', dq] @ ''CA'' @ [dq, CHR '','', nl],
          Some (ErrorString ''invalid input''))
   \<and> TxtToJSON_reader (''country=CA'' @ [nl] @ replicate 65536 (CHR ''x'') @ [nl])
       = ([CHR ''{'', nl] @ [CHR '' '', CHR '' '', dq] @ ''country''
            @ [dq, CHR '':'', CHR '' '', dq] @ ''CA'' @ [dq, CHR '',''], None)"
proof -
  have h: "\<forall>l \<in> set [''country=CA'']. Contains l ''=''" "\<not> Contains ''survey_ver 2'' ''=''"
    "\<not> Contains ''Q311 five'' ''=''"
    by (simp_all add: HasPrefix_def)
  have s: "\<forall>l \<in> set ([''country=CA''] @ [''survey_ver 2'']). nl \<notin> set l \<and> length l < MaxScanTokenSize"
    "\<forall>l \<in> set [''country=CA'']. nl \<notin> set l \<and> length l < MaxScanTokenSize"
    "nl \<notin> set (replicate 65536 (CHR ''x''))"
    "MaxScanTokenSize \<le> length (replicate 65536 (CHR ''x''))"
    by (simp_all add: MaxScanTokenSize_def)
  note t = invalid_line_fatal[OF h(1,2), where post = "[''='']" and bad' = "''Q311 five''"
            and post' = "[''Q410=9'']" and NewDecoder = "\<lambda>b :: string. ()"
            and More = "\<lambda>d :: unit. False"
            and Decode = "\<lambda>(d :: unit) (s :: Survey). (s, None :: go_error option, d)"
            and input = "''country=CA'' @ [nl] @ ''survey_ver 2'' @ [nl] @ ''='' @ [nl]"
            and rest = "''='' @ [nl]" and long = "replicate 65536 (CHR ''x'')" and rest' = "[nl]"]
  have 1: "TxtToJSON [''country=CA'', ''survey_ver 2'', ''='']
     = ([CHR ''{'', nl] @ [CHR '' '', CHR '' '', dq] @ ''country''
          @ [dq, CHR '':'', CHR '' '', dq] @ ''CA'' @ [dq, CHR '','', nl],
        Some (ErrorString ''invalid input''))"
    using t[THEN conjunct1] by (simp add: written_example)
  have 2: "TxtToJSON [''country=CA'', ''survey_ver 2'', ''='']
       = TxtToJSON [''country=CA'', ''Q311 five'', ''Q410=9'']"
    using t[THEN conjunct2, THEN conjunct1] h(3) by simp
  have 3: "main (\<lambda>b :: string. ()) (\<lambda>d. False) (\<lambda>d s. (s, None, d))
         [''country=CA'', ''survey_ver 2'', ''='']
       = Fatal (''[INFO] Error converting txt to JSON: invalid input'' @ [nl])"
    using t[THEN conjunct2, THEN conjunct2, THEN conjunct1] by simp
  have 4: "TxtToJSON_reader (''country=CA'' @ [nl] @ ''survey_ver 2'' @ [nl] @ ''='' @ [nl])
       = ([CHR ''{'', nl] @ [CHR '' '', CHR '' '', dq] @ ''country''
            @ [dq, CHR '':'', CHR '' '', dq] @ ''CA'' @ [dq, CHR '','', nl],
          Some (ErrorString ''invalid input''))"
    using t[THEN conjunct2, THEN conjunct2, THEN conjunct2, THEN conjunct1] s(1)
    by (simp add: written_example)
  have 5: "TxtToJSON_reader (''country=CA'' @ [nl] @ replicate 65536 (CHR ''x'') @ [nl])
       = ([CHR ''{'', nl] @ [CHR '' '', CHR '' '', dq] @ ''country''
            @ [dq, CHR '':'', CHR '' '', dq] @ ''CA'' @ [dq, CHR '',''], None)"
    using t[THEN conjunct2, THEN conjunct2, THEN conjunct2, THEN conjunct2] s(2,3,4)
      written_example(3)
    by (simp add: written_example(1,2))
  show ?thesis using 1 2 3 4 5 by blast
qed

text \<open>
  Against C5 as stated: two different offending lines give the same bytes and the same
  error, whose message holds nothing of the line.
\<close>

theorem error_does_not_name_line:
  "TxtToJSON [''abc''] = ([CHR ''{'', nl], Some (ErrorString ''invalid input''))
   \<and> TxtToJSON [''xyz''] = ([CHR ''{'', nl], Some (ErrorString ''invalid input''))
   \<and> \<not> Contains ''invalid input'' ''abc''"
  by (simp add: TxtToJSON_def HasPrefix_def)

section \<open>The converter: hyphens in keys\<close>






text \<open>
  A key of hyphens only is the one key the stripping turns into something else than a
  key: the line \<^verbatim>\<open>-=\<close> is a data line with an empty key, the line \<^verbatim>\<open>=\<close> ends a record.
\<close>

lemma hyphen_only_key:
  "TxtToJSON [''-=''] = ([CHR ''{'', nl] @ ''  '' @ [dq, dq] @ '': '' @ [dq, dq, CHR '',''], None)"
  "TxtToJSON [''=''] = ([CHR ''{'', nl, CHR ''}''], None)"
  by code_simp+





section \<open>The decoding loop\<close>

text \<open>
  What \<^verbatim>\<open>main\<close> itself does with a record whose decoding reports an error: the variable
  is appended all the same and the loop goes on with the decoder's next state; and the
  aggregator does not panic on what \<^verbatim>\<open>main\<close> hands it. What the variable holds after such
  a \<^verbatim>\<open>Decode\<close> is decided inside \<^verbatim>\<open>encoding/json\<close>.
\<close>

lemma decode_error_appended:
  assumes "More dec" "Decode dec Survey_zero = (s, Some err, dec')"
  shows "decode_loop More Decode dec surveys = decode_loop More Decode dec' (surveys @ [s])"
  using assms by (subst decode_loop.simps) simp

lemma NewReport_no_panic: "\<exists>r. NewReport (map Some surveys) = Inr r"
  by (simp add: NewReport_def NewReport_loop_Some Let_def)

end
